theory Spec2Isabelle
  imports Main "HOL-Library.Word" "HOL-Library.Signed_Division"
begin

unbundle bit_operations_syntax

section \<open>Go values on linux/amd64\<close>

text \<open>
  The program is Go code for Linux netlink sockets. Its integers are machine integers:
  \<^item> \<open>int\<close> is a 64-bit two's complement integer: a \<open>64 word\<close> read by \<open>sint\<close>;
    \<open>+\<close>, \<open>-\<close>, \<open>*\<close> wrap around, \<open>&\<close> is \<open>AND\<close>;
  \<^item> \<open>uintptr\<close> is a 64-bit unsigned integer; the conversion \<open>int(n)\<close> keeps the bits;
  \<^item> \<open>uint16\<close> and \<open>uint32\<close> are \<open>16 word\<close> and \<open>32 word\<close>, \<open>int32\<close> a \<open>32 word\<close>
    read by \<open>sint\<close>.
  A byte slice is the list of its bytes. Its length always fits an \<open>int\<close>, so \<open>len(s)\<close>
  is the mathematical integer \<open>int (length s)\<close>; where the source passes it on as an
  \<open>int\<close> it is converted with \<open>word_of_int\<close>.
\<close>

type_synonym byte = "8 word"
type_synonym go_int = "64 word"
type_synonym uintptr = "64 word"

definition slice_len :: "byte list \<Rightarrow> int" where
  "slice_len s = int (length s)"

text \<open>The conversions \<open>int(x)\<close> of a \<open>uint32\<close> and of a \<open>uint16\<close>, \<open>uintptr(x)\<close> of a \<open>uint16\<close>.\<close>

definition int_of_uint32 :: "32 word \<Rightarrow> go_int" where
  "int_of_uint32 w = ucast w"

definition int_of_uint16 :: "16 word \<Rightarrow> go_int" where
  "int_of_uint16 w = ucast w"

subsection \<open>Constants and record layouts of package syscall\<close>

text \<open>
  The constants and the struct layouts come from Go's \<open>syscall\<close> package for Linux:
  \<open>NlMsghdr {Len uint32; Type uint16; Flags uint16; Seq uint32; Pid uint32}\<close>,
  \<open>RtAttr {Len uint16; Type uint16}\<close> and \<open>NlMsgerr {Error int32; Msg NlMsghdr}\<close>.
  The source reads and writes them through \<open>unsafe.Pointer\<close> casts into the byte
  slice, that is in the byte order of the machine, which is little-endian.
\<close>

abbreviation (input) NLMSG_HDRLEN :: go_int where "NLMSG_HDRLEN \<equiv> 16"
abbreviation (input) NLMSG_ALIGNTO :: go_int where "NLMSG_ALIGNTO \<equiv> 4"
abbreviation (input) RTA_ALIGNTO :: go_int where "RTA_ALIGNTO \<equiv> 4"
abbreviation (input) SizeofRtAttr :: go_int where "SizeofRtAttr \<equiv> 4"
abbreviation (input) NLMSG_ERROR :: "16 word" where "NLMSG_ERROR \<equiv> 2"

definition load16 :: "byte list \<Rightarrow> nat \<Rightarrow> 16 word" where
  "load16 m p = ucast (m ! p) OR push_bit 8 (ucast (m ! (p + 1)))"

definition load32 :: "byte list \<Rightarrow> nat \<Rightarrow> 32 word" where
  "load32 m p = ucast (m ! p) OR push_bit 8 (ucast (m ! (p + 1)))
     OR push_bit 16 (ucast (m ! (p + 2))) OR push_bit 24 (ucast (m ! (p + 3)))"

definition store16 :: "byte list \<Rightarrow> nat \<Rightarrow> 16 word \<Rightarrow> byte list" where
  "store16 m p v = m[p := ucast v, p + 1 := ucast (drop_bit 8 v)]"

definition store32 :: "byte list \<Rightarrow> nat \<Rightarrow> 32 word \<Rightarrow> byte list" where
  "store32 m p v = m[p := ucast v, p + 1 := ucast (drop_bit 8 v),
     p + 2 := ucast (drop_bit 16 v), p + 3 := ucast (drop_bit 24 v)]"

text \<open>
  The fields of the record that \<open>nlMsghdrAt(data, pos)\<close>, \<open>rtAttrAt(data, pos)\<close> and
  \<open>nlMsgerrAt(data, pos)\<close> point to. The readers are only applied where the bytes lie
  inside the slice: every function below tests that first and says what happens otherwise.
\<close>

definition NlMsghdr_Len :: "byte list \<Rightarrow> nat \<Rightarrow> 32 word" where
  "NlMsghdr_Len m p = load32 m p"

definition NlMsghdr_Type :: "byte list \<Rightarrow> nat \<Rightarrow> 16 word" where
  "NlMsghdr_Type m p = load16 m (p + 4)"

definition NlMsghdr_Flags :: "byte list \<Rightarrow> nat \<Rightarrow> 16 word" where
  "NlMsghdr_Flags m p = load16 m (p + 6)"

definition NlMsghdr_Seq :: "byte list \<Rightarrow> nat \<Rightarrow> 32 word" where
  "NlMsghdr_Seq m p = load32 m (p + 8)"

definition NlMsghdr_Pid :: "byte list \<Rightarrow> nat \<Rightarrow> 32 word" where
  "NlMsghdr_Pid m p = load32 m (p + 12)"

definition RtAttr_Len :: "byte list \<Rightarrow> nat \<Rightarrow> 16 word" where
  "RtAttr_Len m p = load16 m p"

definition RtAttr_Type :: "byte list \<Rightarrow> nat \<Rightarrow> 16 word" where
  "RtAttr_Type m p = load16 m (p + 2)"

definition NlMsgerr_Error :: "byte list \<Rightarrow> nat \<Rightarrow> 32 word" where
  "NlMsgerr_Error m p = load32 m p"

subsection \<open>Errors and outcomes\<close>

text \<open>
  The source builds its errors with \<open>fmt.Errorf\<close>; one constructor stands for each
  format string and carries the values printed. An \<open>error\<close> result is an
  \<open>error option\<close>, \<open>None\<close> for \<open>nil\<close>.

  A call either returns, or panics in the Go runtime (an index or slice expression out
  of range), or reads through an unsafe pointer past the end of its slice, where the
  bytes read are not given by the arguments.
\<close>

datatype error =
    TruncatedHeader int
  | TruncatedMessage int "32 word"
  | PidMismatch "32 word" "32 word"
  | SeqMismatch "32 word" "32 word"
  | NetlinkError uintptr
  | MultipleMessages
  | TruncatedPayload go_int uintptr
  | WrongType "16 word" "16 word"
  | MissingAttribute "16 word"
  | Truncated string go_int uintptr

datatype 'a outcome = Return 'a | Panic | OutOfBounds

section \<open>Alignment\<close>

text \<open>\<open>func align(n int, a int) int { return (n + a - 1) & -a }\<close>\<close>

definition align :: "go_int \<Rightarrow> go_int \<Rightarrow> go_int" where
  "align n a = (n + a - 1) AND (- a)"

section \<open>The socket and the check of a response\<close>

text \<open>
  \<open>NetlinkSocket\<close> holds the descriptor and the local address that \<open>Getsockname\<close>
  returned; \<open>checkResponse\<close> reads only the port id of that address.
\<close>

record SockaddrNetlink =
  Family :: "16 word"
  Pad :: "16 word"
  Pid :: "32 word"
  Groups :: "32 word"

record NetlinkSocket =
  fd :: go_int
  addr :: SockaddrNetlink

text \<open>
  \<open>checkResponse\<close>, statement by statement. After the four tests the source slices
  \<open>payload := data[NLMSG_HDRLEN:h.Len]\<close>, which panics when \<open>h.Len\<close> is below 16 (the
  upper bound \<open>h.Len \<le> len(data)\<close> has been tested). For the error type it takes
  \<open>&payload[0]\<close>, which panics on an empty payload, and reads the \<open>int32\<close> at bytes
  16 to 19 of \<open>data\<close> through the pointer; those bytes lie outside \<open>data\<close> when it is
  shorter than 20 bytes. \<open>syscall.Errno\<close> is a \<open>uintptr\<close>: the conversion of the negated
  \<open>int32\<close> extends its sign.
\<close>

definition checkResponse :: "NetlinkSocket \<Rightarrow> byte list \<Rightarrow> 32 word \<Rightarrow> error option outcome" where
  "checkResponse s d expectedSeq =
    (if slice_len d < sint NLMSG_HDRLEN then Return (Some (TruncatedHeader (slice_len d)))
     else if slice_len d < sint (int_of_uint32 (NlMsghdr_Len d 0))
       then Return (Some (TruncatedMessage (slice_len d) (NlMsghdr_Len d 0)))
     else if NlMsghdr_Pid d 0 \<noteq> Pid (addr s)
       then Return (Some (PidMismatch (NlMsghdr_Pid d 0) (Pid (addr s))))
     else if NlMsghdr_Seq d 0 \<noteq> expectedSeq
       then Return (Some (SeqMismatch (NlMsghdr_Seq d 0) expectedSeq))
     else if sint (int_of_uint32 (NlMsghdr_Len d 0)) < sint NLMSG_HDRLEN then Panic
     else if NlMsghdr_Type d 0 = NLMSG_ERROR then
       (if sint (int_of_uint32 (NlMsghdr_Len d 0)) - sint NLMSG_HDRLEN \<le> 0 then Panic
        else if slice_len d < 20 then OutOfBounds
        else if NlMsgerr_Error d 16 = 0 then Return None
        else Return (Some (NetlinkError (scast (- NlMsgerr_Error d 16)))))
     else if sint (align (word_of_int (slice_len d)) NLMSG_ALIGNTO)
         < sint (int_of_uint32 (NlMsghdr_Len d 0))
       then Return (Some MultipleMessages)
     else Return None)"

section \<open>The parser\<close>

record NlMsgButcher =
  data :: "byte list"
  pos :: go_int

definition NewNlMsgButcher :: "byte list \<Rightarrow> NlMsgButcher" where
  "NewNlMsgButcher d = \<lparr>data = d, pos = 0\<rparr>"

definition NlMsgButcher_Align :: "NlMsgButcher \<Rightarrow> go_int \<Rightarrow> NlMsgButcher" where
  "NlMsgButcher_Align nlmsg a = nlmsg\<lparr>pos := align (pos nlmsg) a\<rparr>"

text \<open>\<open>Advance\<close> returns the parser and the error; \<open>int(n)\<close> keeps the bits of \<open>n\<close>.\<close>

definition Advance :: "NlMsgButcher \<Rightarrow> uintptr \<Rightarrow> NlMsgButcher \<times> error option" where
  "Advance nlmsg n =
    (let p = pos nlmsg + n in
     if slice_len (data nlmsg) < sint p
     then (nlmsg, Some (TruncatedPayload (pos nlmsg) n))
     else (nlmsg\<lparr>pos := p\<rparr>, None))"

text \<open>
  \<open>TakeNlMsghdr\<close> takes \<open>nlMsghdrAt(nlmsg.data, 0)\<close>: the address of byte 0, a panic on
  an empty slice. It adds the header length to the cursor, then reads \<open>h.Type\<close>, bytes
  4 and 5, with no test of the length. The pointer it returns is the offset of the
  header in \<open>data\<close>, \<open>None\<close> for \<open>nil\<close>.
\<close>

definition TakeNlMsghdr ::
  "NlMsgButcher \<Rightarrow> 16 word \<Rightarrow> (NlMsgButcher \<times> nat option \<times> error option) outcome" where
  "TakeNlMsghdr nlmsg expectType =
    (if slice_len (data nlmsg) \<le> 0 then Panic
     else if slice_len (data nlmsg) < 6 then OutOfBounds
     else if NlMsghdr_Type (data nlmsg) 0 \<noteq> expectType
       then Return (nlmsg\<lparr>pos := pos nlmsg + NLMSG_HDRLEN\<rparr>, None,
              Some (WrongType (NlMsghdr_Type (data nlmsg) 0) expectType))
     else Return (nlmsg\<lparr>pos := pos nlmsg + NLMSG_HDRLEN\<rparr>, Some 0, None))"

subsection \<open>The attribute map\<close>

text \<open>
  \<open>Attrs\<close> is \<open>map[uint16][]byte\<close>. Looking up a missing key gives the nil slice, which
  \<open>Get\<close> takes for a missing attribute; a key bound to nil is a missing key here.
  \<open>Get\<close> and \<open>GetUint16\<close> return the pair of the value and the error.
\<close>

type_synonym Attrs = "16 word \<rightharpoonup> byte list"

definition Get :: "Attrs \<Rightarrow> 16 word \<Rightarrow> byte list \<times> error option" where
  "Get attrs typ =
    (case attrs typ of
       None \<Rightarrow> ([], Some (MissingAttribute typ))
     | Some val \<Rightarrow> (val, None))"

definition GetUint16 :: "Attrs \<Rightarrow> 16 word \<Rightarrow> 16 word \<times> error option" where
  "GetUint16 attrs typ =
    (let (val, err) = Get attrs typ in
     if err \<noteq> None then (0, err)
     else if slice_len val \<noteq> 2 then (0, err)
     else (load16 val 0, None))"

subsection \<open>Walking the attributes\<close>

definition checkData :: "NlMsgButcher \<Rightarrow> uintptr \<Rightarrow> string \<Rightarrow> error option" where
  "checkData nlmsg l obj =
    (if sint (pos nlmsg + l) \<le> slice_len (data nlmsg) then None
     else Some (Truncated obj (word_of_int (slice_len (data nlmsg)) - pos nlmsg) l))"

text \<open>
  \<open>&data[i]\<close> panics unless \<open>0 \<le> i < len(data)\<close>; \<open>data[lo:hi]\<close> panics unless
  \<open>0 \<le> lo \<le> hi \<le> cap(data)\<close>. Where the source slices, \<open>hi\<close> has been compared with
  \<open>len(data)\<close>, which is at most the capacity, so the length stands for the capacity.
\<close>

definition index_ok :: "byte list \<Rightarrow> go_int \<Rightarrow> bool" where
  "index_ok d i = (0 \<le> sint i \<and> sint i < slice_len d)"

definition slice_ok :: "byte list \<Rightarrow> go_int \<Rightarrow> go_int \<Rightarrow> bool" where
  "slice_ok d lo hi = (0 \<le> sint lo \<and> sint lo \<le> sint hi \<and> sint hi \<le> slice_len d)"

definition slice :: "byte list \<Rightarrow> go_int \<Rightarrow> go_int \<Rightarrow> byte list" where
  "slice d lo hi = take (nat (sint hi) - nat (sint lo)) (drop (nat (sint lo)) d)"

subsection \<open>Arithmetic of \<open>align\<close> on 64-bit integers\<close>

text \<open>
  The value of \<open>align n a\<close> as a signed integer, for \<open>a\<close> a power of two: the sum
  \<open>n + a - 1\<close> wraps around at 64 bits, and \<open>& -a\<close> clears its low bits.
\<close>

lemma int_and_neg_pow2: "(k::int) AND - (2 ^ m) = k - k mod 2 ^ m"
proof -
  have "k AND NOT (mask m) = push_bit m (drop_bit m k)"
    by (rule bit_eqI) (auto simp add: bit_simps)
  moreover have "push_bit m (drop_bit m k) + take_bit m k = k"
    by (rule bits_ident)
  ultimately show ?thesis
    by (simp add: minus_exp_eq_not_mask take_bit_eq_mod)
qed

lemma sint_of_int64:
  "- (2 ^ 63) \<le> k \<Longrightarrow> k < 2 ^ 63 \<Longrightarrow> sint (word_of_int k :: 64 word) = k"
  by (simp add: sint_sbintrunc' signed_take_bit_int_eq_self)

lemma sint_range64: "- (2 ^ 63) \<le> sint (x::64 word)" "sint (x::64 word) < 2 ^ 63"
  using sint_ge [of x] sint_lt [of x] by simp_all

lemma sint_neg_pow2:
  assumes "sint (a::64 word) = 2 ^ k"
  shows "sint (- a) = - (2 ^ k)"
proof -
  have ra: "(2::int) ^ k \<le> 2 ^ 63"
    using assms sint_range64(2) [of a] by simp
  have "- a = word_of_int (- sint a)" by simp
  then have "sint (- a) = sint (word_of_int (- (2 ^ k)) :: 64 word)"
    using assms by simp
  also have "\<dots> = - (2 ^ k)"
  proof (rule sint_of_int64)
    show "- (2 ^ 63) \<le> - ((2::int) ^ k)" using ra by simp
    have "(0::int) < 2 ^ k" "(0::int) < 2 ^ 63" by simp_all
    then show "- ((2::int) ^ k) < 2 ^ 63" by linarith
  qed
  finally show ?thesis .
qed

lemma sint_align_wrap:
  assumes "sint a = 2 ^ k"
  shows "sint (align n a) =
    signed_take_bit 63 (sint n + 2 ^ k - 1) - signed_take_bit 63 (sint n + 2 ^ k - 1) mod 2 ^ k"
proof -
  have "n + a - 1 = word_of_int (sint n + sint a - 1)"
    by simp
  then have "sint (n + a - 1) = signed_take_bit 63 (sint n + 2 ^ k - 1)"
    using assms by (simp only: sint_sbintrunc') simp
  then show ?thesis
    by (simp add: align_def signed_and_eq sint_neg_pow2 [OF assms] int_and_neg_pow2)
qed

lemma sint_align:
  assumes "sint a = 2 ^ k" and "sint n + 2 ^ k - 1 < 2 ^ 63"
  shows "sint (align n a) = (sint n + 2 ^ k - 1) - (sint n + 2 ^ k - 1) mod 2 ^ k"
proof -
  have "(0::int) < 2 ^ k" by simp
  then have "- (2 ^ 63) \<le> sint n + 2 ^ k - 1"
    using sint_range64(1) [of n] by linarith
  then have "signed_take_bit 63 (sint n + 2 ^ k - 1) = sint n + 2 ^ k - 1"
    using assms(2) by (intro signed_take_bit_int_eq_self) simp_all
  then show ?thesis
    using sint_align_wrap [OF assms(1), of n] by simp
qed

lemma align_idem_word: "align (align n (2 ^ k)) (2 ^ k) = align n (2 ^ k)"
proof -
  define x where "x = n + 2 ^ k - 1"
  have "(x AND NOT (mask k)) + mask k = (x AND NOT (mask k)) OR mask k"
    by (rule disjunctive_add) (auto simp add: bit_simps)
  then have "((x AND NOT (mask k)) + 2 ^ k - 1) AND NOT (mask k) = x AND NOT (mask k)"
    by (simp add: mask_eq_exp_minus_1 [symmetric] add_diff_eq [symmetric] del: add_diff_eq)
       (rule bit_eqI, auto simp add: bit_simps)
  then show ?thesis
    by (simp add: align_def minus_exp_eq_not_mask x_def)
qed

lemma multiple_le:
  fixes r m d :: int
  assumes "d dvd r" "d dvd m" "r < m + d" "0 < d"
  shows "r \<le> m"
proof (rule ccontr)
  assume "\<not> r \<le> m"
  then have "0 < r - m" by simp
  moreover have "d dvd r - m" using assms(1,2) by (rule dvd_diff)
  ultimately have "d \<le> r - m" by (simp add: zdvd_imp_le)
  then show False using assms(3) by simp
qed

lemma stb63_wrap:
  assumes "2 ^ 63 \<le> k" "k < 2 ^ 64"
  shows "signed_take_bit 63 (k::int) = k - 2 ^ 64"
proof -
  define z where "z = k + 2 ^ 63 - 2 ^ 64"
  have "0 \<le> z" "z < 2 ^ 64" using assms by (simp_all add: z_def)
  then have "z mod 2 ^ 64 = z" by (rule mod_pos_pos_trivial)
  moreover have "z mod 2 ^ 64 = (k + 2 ^ 63) mod 2 ^ 64"
    unfolding z_def by (rule minus_mod_self2)
  ultimately have "take_bit 64 (k + 2 ^ 63) = z"
    by (simp add: take_bit_eq_mod)
  then show ?thesis
    using signed_take_bit_eq_take_bit_shift [of 63 k] by (simp add: z_def)
qed

lemma smod_multiple: "d dvd r \<Longrightarrow> r smod d = (0::int)"
proof -
  assume "d dvd r"
  then have "\<bar>d\<bar> dvd \<bar>r\<bar>" by simp
  then have "\<bar>r\<bar> mod \<bar>d\<bar> = 0" by (simp only: dvd_eq_mod_eq_0)
  then show ?thesis by (simp add: signed_modulo_int_def)
qed

lemma stb63_cases:
  assumes "- (2 ^ 63) \<le> x" "x < 2 ^ 64"
  shows "signed_take_bit 63 (x::int) = x \<or> signed_take_bit 63 x = x - 2 ^ 64"
proof (cases "x < 2 ^ 63")
  case True
  then show ?thesis using assms(1) by (simp add: signed_take_bit_int_eq_self)
next
  case False
  then show ?thesis using assms(2) stb63_wrap [of x] by simp
qed

lemma stb63_minus_2p64:
  assumes "0 \<le> z" "z < 2 ^ 63"
  shows "signed_take_bit 63 (z - 2 ^ 64 :: int) = z"
proof -
  have "signed_take_bit 63 (z - 2 ^ 64) = signed_take_bit 63 (signed_take_bit 63 z - signed_take_bit 63 (2 ^ 64 :: int))"
    by (simp only: signed_take_bit_diff)
  moreover have "signed_take_bit 63 (2 ^ 64 :: int) = 0"
    by (simp add: signed_take_bit_eq_take_bit_shift take_bit_eq_mod)
  moreover have "signed_take_bit 63 z = z"
    using assms by (simp add: signed_take_bit_int_eq_self)
  ultimately show ?thesis by simp
qed

lemma pow2_le_2p62:
  assumes "sint (a::64 word) = 2 ^ k"
  shows "(2::int) ^ k \<le> 2 ^ 62"
proof -
  have lt: "(2::int) ^ k < 2 ^ 63" using assms sint_range64(2) [of a] by simp
  have "k < 63" by (rule power_less_imp_less_exp [OF _ lt]) simp
  then have "k \<le> 62" by simp
  then show ?thesis by (rule power_increasing) simp
qed

lemma sint_align4:
  "sint x + 3 < 2 ^ 63 \<Longrightarrow> sint (align x 4) = (sint x + 3) - (sint x + 3) mod 4"
  using sint_align [of 4 2 x] by (simp add: add.commute)

lemma sint_align4_overflow:
  assumes "2 ^ 63 \<le> sint x + 3"
  shows "sint (align x 4) < 0"
proof -
  define w where "w = signed_take_bit 63 (sint x + 2 ^ 2 - 1)"
  have "sint x + 3 < 2 ^ 64" using sint_range64(2) [of x] by simp
  then have "signed_take_bit 63 (sint x + 3) = sint x + 3 - 2 ^ 64"
    using assms by (intro stb63_wrap) simp_all
  then have "w = sint x + 3 - 2 ^ 64" by (simp add: w_def add.commute)
  then have "w < 0" using sint_range64(2) [of x] by simp
  moreover have "0 \<le> w mod 2 ^ 2" by simp
  moreover have "sint (align x 4) = w - w mod 2 ^ 2"
    unfolding w_def by (rule sint_align_wrap) simp
  ultimately show ?thesis by linarith
qed

lemma align4_ge: "0 \<le> sint (align x 4) \<Longrightarrow> sint x \<le> sint (align x 4)"
proof -
  assume nn: "0 \<le> sint (align x 4)"
  have "sint x + 3 < 2 ^ 63"
    using sint_align4_overflow [of x] nn by (cases "sint x + 3 < 2 ^ 63") simp_all
  then have "sint (align x 4) = (sint x + 3) - (sint x + 3) mod 4"
    by (rule sint_align4)
  moreover have "(sint x + 3) mod 4 < 4" by simp
  ultimately show ?thesis by linarith
qed

lemma align4_le: "sint x + 3 < 2 ^ 63 \<Longrightarrow> sint (align x 4) \<le> sint x + 3"
proof -
  assume "sint x + 3 < 2 ^ 63"
  then have "sint (align x 4) = (sint x + 3) - (sint x + 3) mod 4"
    by (rule sint_align4)
  moreover have "0 \<le> (sint x + 3) mod 4" by simp
  ultimately show ?thesis by linarith
qed

lemma sint_plus_small:
  fixes x :: "64 word"
  assumes "0 \<le> k" "sint x + k < 2 ^ 63"
  shows "sint (x + word_of_int k) = sint x + k"
proof -
  have "x + word_of_int k = word_of_int (sint x + k)" by simp
  moreover have "- (2 ^ 63) \<le> sint x + k" using assms(1) sint_range64(1) [of x] by simp
  ultimately show ?thesis using assms(2) by (simp only: sint_of_int64)
qed

lemma align4_next_gt:
  assumes "0 \<le> sint x" "0 \<le> sint (align (x + 4) 4)"
  shows "sint x < sint (align (x + 4) 4)"
proof (cases "sint x + 4 < 2 ^ 63")
  case True
  then have "sint (x + 4) = sint x + 4"
    using sint_plus_small [of 4 x] by simp
  then show ?thesis using align4_ge [OF assms(2)] by simp
next
  case False
  have "sint x + 4 < 2 ^ 64" using sint_range64(2) [of x] by simp
  then have "signed_take_bit 63 (sint x + 4) = sint x + 4 - 2 ^ 64"
    using False by (intro stb63_wrap) simp_all
  moreover have "x + 4 = word_of_int (sint x + 4)" by simp
  ultimately have "sint (x + 4) = sint x + 4 - 2 ^ 64"
    by (simp only: sint_sbintrunc') simp
  then have "sint (x + 4) + 3 < 0" using sint_range64(2) [of x] by simp
  then have "sint (align (x + 4) 4) < 0"
    using align4_le [of "x + 4"] by simp
  then show ?thesis using assms(2) by simp
qed

text \<open>
  The loop of \<open>TakeAttrs\<close>. One round: align the cursor; return the map when the
  aligned cursor has reached the end; test that a prefix fits (\<open>checkData\<close>), take
  \<open>rtAttrAt(nlmsg.data, nlmsg.pos)\<close> and read its length; test that the attribute
  fits; slice the value out and advance by the length read. The named results
  \<open>(attrs, err)\<close> are returned together, with the parser as the round left it.
  \<open>uintptr(rta.Len)\<close> and \<open>int(rta.Len)\<close> have the same bits.
\<close>

function TakeAttrs_loop ::
  "NlMsgButcher \<Rightarrow> Attrs \<Rightarrow> (NlMsgButcher \<times> Attrs \<times> error option) outcome" where
  "TakeAttrs_loop nlmsg attrs =
    (let apos = align (pos nlmsg) RTA_ALIGNTO in
     if slice_len (data nlmsg) \<le> sint apos then Return (nlmsg, attrs, None)
     else if checkData (nlmsg\<lparr>pos := apos\<rparr>) SizeofRtAttr ''netlink attribute'' \<noteq> None
       then Return (nlmsg\<lparr>pos := apos\<rparr>, attrs,
              checkData (nlmsg\<lparr>pos := apos\<rparr>) SizeofRtAttr ''netlink attribute'')
     else if \<not> index_ok (data nlmsg) apos then Panic
     else if slice_len (data nlmsg) < sint apos + 4 then OutOfBounds
     else
       let rta_Len = RtAttr_Len (data nlmsg) (nat (sint apos));
           rta_Type = RtAttr_Type (data nlmsg) (nat (sint apos));
           rtaLen = int_of_uint16 rta_Len
       in
       if checkData (nlmsg\<lparr>pos := apos\<rparr>) rtaLen ''netlink attribute'' \<noteq> None
         then Return (nlmsg\<lparr>pos := apos\<rparr>, attrs,
                checkData (nlmsg\<lparr>pos := apos\<rparr>) rtaLen ''netlink attribute'')
       else
         let valpos = align (apos + SizeofRtAttr) RTA_ALIGNTO in
         if \<not> slice_ok (data nlmsg) valpos (apos + int_of_uint16 rta_Len) then Panic
         else TakeAttrs_loop (nlmsg\<lparr>pos := apos + rtaLen\<rparr>)
                (attrs(rta_Type \<mapsto> slice (data nlmsg) valpos (apos + int_of_uint16 rta_Len))))"
  by pat_completeness auto
termination
proof (relation "measure (\<lambda>(nlmsg, attrs). nat (2 ^ 63 - sint (pos nlmsg)))", goal_cases)
  case 1
  show ?case by simp
next
  case (2 nlmsg attrs apos rta_Len rta_Type rtaLen valpos)
  have a0: "0 \<le> sint apos"
    using 2 by (simp add: index_ok_def)
  have v0: "0 \<le> sint valpos" and vh: "sint valpos \<le> sint (apos + rtaLen)"
    using 2 by (simp_all add: slice_ok_def)
  have "sint (pos nlmsg) \<le> sint apos"
    using a0 align4_ge [of "pos nlmsg"] 2 by simp
  moreover have "sint apos < sint valpos"
    using a0 v0 align4_next_gt [of apos] 2 by simp
  ultimately have "sint (pos nlmsg) < sint (apos + rtaLen)"
    using vh by linarith
  moreover have "sint (apos + rtaLen) < 2 ^ 63"
    using sint_range64(2) by simp
  ultimately show ?case by simp
qed

declare TakeAttrs_loop.simps [simp del]

definition TakeAttrs :: "NlMsgButcher \<Rightarrow> (NlMsgButcher \<times> Attrs \<times> error option) outcome" where
  "TakeAttrs nlmsg = TakeAttrs_loop nlmsg Map.empty"

text \<open>
  The results that the loop can have: a panic, a read out of bounds, or a return with no
  error or with the error of \<open>checkData\<close> for a netlink attribute.
\<close>

definition attrs_outcome :: "(NlMsgButcher \<times> Attrs \<times> error option) outcome \<Rightarrow> bool" where
  "attrs_outcome r =
    (case r of
       Panic \<Rightarrow> True
     | OutOfBounds \<Rightarrow> True
     | Return (nlmsg', m, None) \<Rightarrow> True
     | Return (nlmsg', m, Some (Truncated obj have l)) \<Rightarrow> obj = ''netlink attribute''
     | Return (nlmsg', m, Some _) \<Rightarrow> False)"

section \<open>The builder\<close>

text \<open>
  The builder's buffer is resliced within its capacity, so its model keeps the backing
  array: \<open>backing\<close> is the array from the first byte of the slice on (its length is
  the capacity) and \<open>count\<close> the length. \<open>make\<close> zeroes the array; it panics on a
  negative length, on a length above the capacity and on a capacity above \<open>maxAlloc\<close>,
  the limit of the Go runtime's allocator, \<open>2^48\<close> bytes on linux/amd64. (Below that
  limit an allocation that the machine cannot serve ends the program; the buffers built
  here have 16 and 25 bytes.) \<open>copy\<close> copies as many bytes as both sides have;
  \<open>b[:l]\<close> panics unless \<open>0 \<le> l \<le> cap(b)\<close>.
\<close>

record go_slice =
  backing :: "byte list"
  count :: nat

definition nil_slice :: go_slice where
  "nil_slice = \<lparr>backing = [], count = 0\<rparr>"

definition go_len :: "go_slice \<Rightarrow> go_int" where
  "go_len b = word_of_int (int (count b))"

definition go_cap :: "go_slice \<Rightarrow> go_int" where
  "go_cap b = word_of_int (int (length (backing b)))"

definition bytes_of :: "go_slice \<Rightarrow> byte list" where
  "bytes_of b = take (count b) (backing b)"

definition maxAlloc :: int where
  "maxAlloc = 2 ^ 48"

definition make_bytes :: "go_int \<Rightarrow> go_int \<Rightarrow> go_slice outcome" where
  "make_bytes n c =
    (if 0 \<le> sint n \<and> sint n \<le> sint c \<and> sint c \<le> maxAlloc
     then Return \<lparr>backing = replicate (nat (sint c)) 0, count = nat (sint n)\<rparr>
     else Panic)"

definition copy_bytes :: "go_slice \<Rightarrow> byte list \<Rightarrow> go_slice" where
  "copy_bytes dst src =
    dst\<lparr>backing := take (min (count dst) (length src)) src
                     @ drop (min (count dst) (length src)) (backing dst)\<rparr>"

definition reslice_to :: "go_slice \<Rightarrow> go_int \<Rightarrow> go_slice outcome" where
  "reslice_to b l =
    (if 0 \<le> sint l \<and> sint l \<le> sint (go_cap b) then Return (b\<lparr>count := nat (sint l)\<rparr>)
     else Panic)"

definition and_then :: "'a outcome option \<Rightarrow> ('a \<Rightarrow> 'b outcome option) \<Rightarrow> 'b outcome option" where
  "and_then m f =
    (case m of
       None \<Rightarrow> None
     | Some Panic \<Rightarrow> Some Panic
     | Some OutOfBounds \<Rightarrow> Some OutOfBounds
     | Some (Return x) \<Rightarrow> f x)"

text \<open>
  \<open>expand\<close>: \<open>c := (cap(buf) + 1) * 3 / 2; for l > c { c = (c + 1) * 3 / 2 }\<close>, then
  a new array of capacity \<open>c\<close> with the bytes of \<open>buf\<close> copied. Go's \<open>/\<close> truncates
  towards zero. On 64-bit integers the products wrap around, and nothing bounds the
  number of rounds: the loop is a partial function, \<open>None\<close> when it does not end.
  A call that does not end, panics or writes out of bounds ends the calls around it
  (\<open>and_then\<close>).
\<close>

definition go_div :: "go_int \<Rightarrow> go_int \<Rightarrow> go_int" where
  "go_div x y = word_of_int (sint x sdiv sint y)"

partial_function (option) expand_cap :: "go_int \<Rightarrow> go_int \<Rightarrow> go_int option" where
  "expand_cap l c = (if sint c < sint l then expand_cap l (go_div ((c + 1) * 3) 2) else Some c)"

declare expand_cap.simps [code]

definition expand :: "go_slice \<Rightarrow> go_int \<Rightarrow> go_slice outcome option" where
  "expand b l =
    (case expand_cap l (go_div ((go_cap b + 1) * 3) 2) of
       None \<Rightarrow> None
     | Some c \<Rightarrow>
        and_then (Some (make_bytes (go_len b) c))
          (\<lambda>new. Some (Return (copy_bytes new (bytes_of b)))))"

text \<open>
  \<open>NewNlMsgBuilder\<close> stores \<open>Flags\<close>, then \<open>Type\<close>, into a zeroed header.
  \<open>grow_to\<close> is the pair of statements that \<open>Align\<close> and \<open>Grow\<close> share:
  \<open>if l > cap(nlmsg.buf) { nlmsg.buf = expand(nlmsg.buf, l) }; nlmsg.buf = nlmsg.buf[:l]\<close>.
\<close>

record NlMsgBuilder =
  buf :: go_slice

definition NewNlMsgBuilder :: "16 word \<Rightarrow> 16 word \<Rightarrow> NlMsgBuilder outcome option" where
  "NewNlMsgBuilder flags typ =
    and_then (Some (make_bytes NLMSG_HDRLEN NLMSG_HDRLEN))
      (\<lambda>b. Some (Return \<lparr>buf = b\<lparr>backing := store16 (store16 (backing b) 6 flags) 4 typ\<rparr>\<rparr>))"

definition grow_to :: "NlMsgBuilder \<Rightarrow> go_int \<Rightarrow> NlMsgBuilder outcome option" where
  "grow_to nlmsg l =
    and_then (if sint (go_cap (buf nlmsg)) < sint l then expand (buf nlmsg) l
              else Some (Return (buf nlmsg)))
      (\<lambda>b. and_then (Some (reslice_to b l)) (\<lambda>b'. Some (Return (nlmsg\<lparr>buf := b'\<rparr>))))"

definition NlMsgBuilder_Align :: "NlMsgBuilder \<Rightarrow> go_int \<Rightarrow> NlMsgBuilder outcome option" where
  "NlMsgBuilder_Align nlmsg a = grow_to nlmsg (align (go_len (buf nlmsg)) a)"

definition Grow :: "NlMsgBuilder \<Rightarrow> uintptr \<Rightarrow> (NlMsgBuilder \<times> go_int) outcome option" where
  "Grow nlmsg sz =
    and_then (grow_to nlmsg (go_len (buf nlmsg) + sz))
      (\<lambda>nlmsg'. Some (Return (nlmsg', go_len (buf nlmsg))))"

text \<open>
  \<open>Finish\<close> takes the global counter \<open>nextSeqNo\<close> and returns it incremented, with
  the finished slice, the sequence number and the builder, whose buffer is now nil.
  The header fields are written through \<open>&buf[0]\<close>: a panic on an empty buffer.
\<close>

definition Finish ::
  "32 word \<Rightarrow> NlMsgBuilder \<Rightarrow> (go_slice \<times> 32 word \<times> NlMsgBuilder \<times> 32 word) outcome" where
  "Finish nextSeqNo nlmsg =
    (if \<not> index_ok (bytes_of (buf nlmsg)) 0 then Panic
     else if length (backing (buf nlmsg)) < 12 then OutOfBounds
     else
       let seq = nextSeqNo + 1;
           m = store32 (store32 (backing (buf nlmsg)) 0 (ucast (go_len (buf nlmsg)))) 8 seq
       in Return ((buf nlmsg)\<lparr>backing := m\<rparr>, seq, nlmsg\<lparr>buf := nil_slice\<rparr>, seq))"

text \<open>
  \<open>PutRtAttr\<close> runs the callback \<open>gen\<close> on the builder between reserving the prefix
  and filling it in: \<open>Type\<close> first, then \<open>Len = uint16(len(nlmsg.buf) - pos)\<close>.
\<close>

definition PutRtAttr ::
  "NlMsgBuilder \<Rightarrow> 16 word \<Rightarrow> (NlMsgBuilder \<Rightarrow> NlMsgBuilder outcome option)
    \<Rightarrow> NlMsgBuilder outcome option" where
  "PutRtAttr nlmsg typ gen =
    and_then (NlMsgBuilder_Align nlmsg NLMSG_ALIGNTO) (\<lambda>n1.
    and_then (Grow n1 SizeofRtAttr) (\<lambda>(n2, p).
    and_then (NlMsgBuilder_Align n2 RTA_ALIGNTO) (\<lambda>n3.
    and_then (gen n3) (\<lambda>n4.
      if \<not> index_ok (bytes_of (buf n4)) p then Some Panic
      else if int (length (backing (buf n4))) < sint p + 4 then Some OutOfBounds
      else Some (Return (n4\<lparr>buf := (buf n4)\<lparr>backing :=
        store16 (store16 (backing (buf n4)) (nat (sint p) + 2) typ)
          (nat (sint p)) (ucast (go_len (buf n4) - p))\<rparr>\<rparr>))))))"

text \<open>
  A Go string is a sequence of bytes. \<open>addStringZ\<close> grows the buffer by the length of
  the string and one, copies the string to \<open>nlmsg.buf[pos:]\<close> and stores a zero byte at
  \<open>nlmsg.buf[pos + l]\<close>.
\<close>

definition bytes_of_string :: "string \<Rightarrow> byte list" where
  "bytes_of_string str = map of_char str"

definition addStringZ :: "NlMsgBuilder \<Rightarrow> string \<Rightarrow> NlMsgBuilder outcome option" where
  "addStringZ nlmsg str =
    (let l = word_of_int (int (length str)) :: go_int in
     and_then (Grow nlmsg (l + 1)) (\<lambda>(n1, p).
       if \<not> slice_ok (bytes_of (buf n1)) p (go_len (buf n1)) then Some Panic
       else
         let k = min (count (buf n1) - nat (sint p)) (length str);
             m = take (nat (sint p)) (backing (buf n1)) @ take k (bytes_of_string str)
                   @ drop (nat (sint p) + k) (backing (buf n1))
         in
         if \<not> index_ok (bytes_of (buf n1)) (p + l) then Some Panic
         else Some (Return (n1\<lparr>buf := (buf n1)\<lparr>backing := m[nat (sint (p + l)) := 0]\<rparr>\<rparr>))))"

definition PutStringRtAttr :: "NlMsgBuilder \<Rightarrow> 16 word \<Rightarrow> string \<Rightarrow> NlMsgBuilder outcome option" where
  "PutStringRtAttr nlmsg typ str = PutRtAttr nlmsg typ (\<lambda>n. addStringZ n str)"

section \<open>Attribute streams on the wire\<close>

text \<open>
  The bytes of one attribute as \<open>PutRtAttr\<close> lays them out: the prefix, \<open>Len\<close> (the
  prefix and the value, without padding) then \<open>Type\<close>, each in 2 bytes, and the value.
  Padding follows up to the next multiple of 4, where the next attribute starts;
  \<open>PutRtAttr\<close> pads before it writes an attribute, so the last attribute of a message
  may have less padding, or none. An attribute is given as its type, its value and its
  padding bytes. \<open>attrs_of\<close> stores the values one after the other, in the order of the
  stream.
\<close>

definition le16 :: "16 word \<Rightarrow> byte list" where
  "le16 w = [ucast w, ucast (drop_bit 8 w)]"

definition padlen :: "nat \<Rightarrow> nat" where
  "padlen n = (4 - n mod 4) mod 4"

definition rtattr_bytes :: "16 word \<times> byte list \<times> byte list \<Rightarrow> byte list" where
  "rtattr_bytes r =
    (case r of (t, v, pad) \<Rightarrow> le16 (word_of_nat (4 + length v)) @ le16 t @ v @ pad)"

definition rtattrs_bytes :: "(16 word \<times> byte list \<times> byte list) list \<Rightarrow> byte list" where
  "rtattrs_bytes rs = concat (map rtattr_bytes rs)"

fun wf_rtattrs :: "(16 word \<times> byte list \<times> byte list) list \<Rightarrow> bool" where
  "wf_rtattrs [] = True"
| "wf_rtattrs [(t, v, pad)] = (length v \<le> 65531 \<and> length pad \<le> padlen (length v))"
| "wf_rtattrs ((t, v, pad) # r # rs) =
     (length v \<le> 65531 \<and> length pad = padlen (length v) \<and> wf_rtattrs (r # rs))"

definition attrs_of :: "(16 word \<times> byte list \<times> byte list) list \<Rightarrow> Attrs \<Rightarrow> Attrs" where
  "attrs_of rs attrs = foldl (\<lambda>m r. case r of (t, v, pad) \<Rightarrow> m(t \<mapsto> v)) attrs rs"

section \<open>Properties of \<open>align\<close>\<close>

text \<open>
  Claim C8, as the code has it. For every \<open>n\<close> (negative ones too) and every \<open>a\<close> that
  is a power of two: aligning twice is aligning once, the result is divisible by \<open>a\<close>,
  also with the remainder of Go, which truncates (\<open>smod\<close>), and it exceeds \<open>n\<close> by less
  than \<open>a\<close>, both as integers and in the subtraction of the machine. When \<open>n + a - 1\<close> does not exceed the largest \<open>int\<close>, \<open>align n a\<close> is
  the least multiple of \<open>a\<close> that is at least \<open>n\<close>; when it does, the sum wraps around
  and the result is below \<open>n\<close>.
\<close>

theorem align_least_multiple:
  assumes a: "sint a = 2 ^ k"
  shows "align (align n a) a = align n a
    \<and> sint a dvd sint (align n a)
    \<and> sint (align n a) mod sint a = 0
    \<and> sint (align n a) smod sint a = 0
    \<and> sint (align n a) - sint n < sint a
    \<and> 0 \<le> sint (align n a - n) \<and> sint (align n a - n) < sint a
    \<and> (sint n + sint a - 1 < 2 ^ 63 \<longrightarrow>
         sint n \<le> sint (align n a)
         \<and> (\<forall>m. sint a dvd m \<and> sint n \<le> m \<longrightarrow> sint (align n a) \<le> m))
    \<and> (2 ^ 63 \<le> sint n + sint a - 1 \<longrightarrow> sint (align n a) < sint n)"
proof -
  define d :: int where "d = 2 ^ k"
  define x where "x = sint n + d - 1"
  define w where "w = signed_take_bit 63 x"
  define z where "z = d - 1 - w mod d"
  have d: "0 < d" by (simp add: d_def)
  have d62: "d \<le> 2 ^ 62" unfolding d_def using a by (rule pow2_le_2p62)
  have xlo: "- (2 ^ 63) \<le> x" using sint_range64(1) [of n] d by (simp add: x_def)
  have xhi: "x < 2 ^ 64" using sint_range64(2) [of n] d62 by (simp add: x_def)
  have wx: "w = x \<or> w = x - 2 ^ 64" unfolding w_def using xlo xhi by (rule stb63_cases)
  have r: "sint (align n a) = w - w mod d"
    unfolding w_def x_def d_def using a by (rule sint_align_wrap)
  have m0: "0 \<le> w mod d" and m1: "w mod d < d" using d by simp_all
  have z: "0 \<le> z" "z < d" using m0 m1 by (simp_all add: z_def)
  have dv: "d dvd w - w mod d" by (simp add: minus_mod_eq_mult_div)
  have "a = word_of_int (sint a)" by simp
  then have "a = 2 ^ k" using a by simp
  then have idem: "align (align n a) a = align n a" by (simp add: align_idem_word)
  have lt: "w - w mod d - sint n < d"
    using wx m0 by (auto simp add: x_def)
  have diff: "w - w mod d - sint n = z \<or> w - w mod d - sint n = z - 2 ^ 64"
    using wx by (auto simp add: x_def z_def)
  have "align n a - n = word_of_int (sint (align n a) - sint n)" by simp
  then have "sint (align n a - n) = signed_take_bit 63 (w - w mod d - sint n)"
    by (simp only: sint_sbintrunc' r) simp
  moreover have "signed_take_bit 63 z = z"
    using z d62 by (intro signed_take_bit_int_eq_self) simp_all
  moreover have "signed_take_bit 63 (z - 2 ^ 64) = z"
    using z d62 by (intro stb63_minus_2p64) simp_all
  ultimately have mdiff: "sint (align n a - n) = z"
    using diff by auto
  have ok: "sint n \<le> w - w mod d \<and> (\<forall>m. d dvd m \<and> sint n \<le> m \<longrightarrow> w - w mod d \<le> m)"
    if b: "sint n + d - 1 < 2 ^ 63"
  proof -
    have "w = x" unfolding w_def using xlo b by (intro signed_take_bit_int_eq_self) (simp_all add: x_def)
    then have le: "sint n \<le> w - w mod d" using m1 by (simp add: x_def)
    have "w - w mod d \<le> m" if "d dvd m" "sint n \<le> m" for m
    proof (rule multiple_le [OF dv that(1) _ d])
      show "w - w mod d < m + d" using that(2) m0 \<open>w = x\<close> by (simp add: x_def)
    qed
    with le show ?thesis by simp
  qed
  have over: "w - w mod d < sint n" if b: "2 ^ 63 \<le> sint n + d - 1"
  proof -
    have "w = x - 2 ^ 64" unfolding w_def using b xhi by (intro stb63_wrap) (simp_all add: x_def)
    then show ?thesis using m0 d62 by (simp add: x_def)
  qed
  have sm: "(w - w mod d) smod d = 0"
    using dv by (rule smod_multiple)
  show ?thesis
    using idem dv sm lt z ok over by (simp add: r a d_def [symmetric] mdiff)
qed

text \<open>The theorem at \<open>n = 25\<close>, \<open>a = 4\<close>, where \<open>align\<close> gives 28.\<close>

theorem align_least_multiple_witness:
  "sint (4 :: 64 word) = 2 ^ 2 \<and> sint (25 :: 64 word) + sint (4 :: 64 word) - 1 < 2 ^ 63
   \<and> align 25 4 = 28 \<and> align (align 25 4) 4 = align 25 4
   \<and> sint (4 :: 64 word) dvd sint (align 25 4)
   \<and> sint (align 25 4) - sint (25 :: 64 word) < sint (4 :: 64 word)
   \<and> sint (align 25 4 - 25) < sint (4 :: 64 word)
   \<and> sint (25 :: 64 word) \<le> sint (align 25 4)"
proof -
  have h1: "sint (4 :: 64 word) = 2 ^ 2" by simp
  have h2: "sint (25 :: 64 word) + sint (4 :: 64 word) - 1 < 2 ^ 63" by simp
  have "align 25 4 = 28" by (simp add: align_def)
  then show ?thesis
    using h1 h2 align_least_multiple [OF h1, of 25] by simp
qed

text \<open>
  The claim without the bound: for the largest \<open>int\<close> and \<open>a = 2\<close> the result is the
  smallest \<open>int\<close>, which is not at least \<open>n\<close>.
\<close>

theorem align_overflow_counterexample:
  "0 \<le> sint (0x7FFFFFFFFFFFFFFF :: 64 word) \<and> sint (2 :: 64 word) = 2 ^ 1
   \<and> sint (align 0x7FFFFFFFFFFFFFFF 2) = - 9223372036854775808
   \<and> \<not> sint (0x7FFFFFFFFFFFFFFF :: 64 word) \<le> sint (align 0x7FFFFFFFFFFFFFFF 2)"
  by (simp add: align_def)

section \<open>Properties of \<open>checkResponse\<close>\<close>

lemma sint_int_of_uint32 [simp]: "sint (int_of_uint32 w) = uint w"
proof -
  have "uint w < 4294967296" using uint_bounded [of w] by simp
  moreover have "0 \<le> uint w" by simp
  ultimately have "- 9223372036854775808 \<le> uint w" "uint w < 9223372036854775808"
    by linarith+
  then show ?thesis
    by (simp add: int_of_uint32_def signed_ucast_eq signed_take_bit_int_eq_self)
qed

lemma sint_int_of_uint16 [simp]: "sint (int_of_uint16 w) = uint w"
proof -
  have "uint w < 65536" using uint_bounded [of w] by simp
  moreover have "0 \<le> uint w" by simp
  ultimately have "- 9223372036854775808 \<le> uint w" "uint w < 9223372036854775808"
    by linarith+
  then show ?thesis
    by (simp add: int_of_uint16_def signed_ucast_eq signed_take_bit_int_eq_self)
qed

lemma sint_of_nat64: "n < 2 ^ 63 \<Longrightarrow> sint (word_of_nat n :: 64 word) = int n"
proof -
  assume "n < 2 ^ 63"
  then have "int n < 2 ^ 63" by (simp add: of_nat_less_iff [of n "2 ^ 63", where ?'a = int, simplified])
  moreover have "- (2 ^ 63) \<le> int n" by (rule order_trans [of _ 0]) simp_all
  ultimately show ?thesis
    by (simp add: signed_of_nat signed_take_bit_int_eq_self)
qed

lemma sint_word_of_len:
  "length d < 2 ^ 63 \<Longrightarrow> sint (word_of_int (slice_len d) :: 64 word) = int (length d)"
  by (simp add: slice_len_def sint_of_nat64)

text \<open>
  Claim C7. \<open>checkResponse\<close> tests in order and stops at the first test that fails:
  a buffer shorter than the 16-byte header is a truncated header; a header whose \<open>Len\<close>
  exceeds the buffer length is a truncated message, whatever its port id and sequence
  number are; then a port id that differs from the socket's is a pid mismatch; then,
  with the right port id, a sequence number that differs from the expected one is a
  sequence mismatch, whatever the rest of the buffer holds.
\<close>

theorem checkResponse_check_order:
  "(length d < 16 \<longrightarrow>
      checkResponse s d expectedSeq = Return (Some (TruncatedHeader (int (length d)))))
   \<and> (16 \<le> length d \<and> int (length d) < uint (NlMsghdr_Len d 0) \<longrightarrow>
      checkResponse s d expectedSeq
        = Return (Some (TruncatedMessage (int (length d)) (NlMsghdr_Len d 0))))
   \<and> (16 \<le> length d \<and> uint (NlMsghdr_Len d 0) \<le> int (length d)
        \<and> NlMsghdr_Pid d 0 \<noteq> Pid (addr s) \<longrightarrow>
      checkResponse s d expectedSeq
        = Return (Some (PidMismatch (NlMsghdr_Pid d 0) (Pid (addr s)))))
   \<and> (16 \<le> length d \<and> uint (NlMsghdr_Len d 0) \<le> int (length d)
        \<and> NlMsghdr_Pid d 0 = Pid (addr s) \<and> NlMsghdr_Seq d 0 \<noteq> expectedSeq \<longrightarrow>
      checkResponse s d expectedSeq
        = Return (Some (SeqMismatch (NlMsghdr_Seq d 0) expectedSeq)))"
  by (simp add: checkResponse_def slice_len_def)

text \<open>
  Four buffers, one per test, checked against a socket bound to port id 9 with sequence
  number 5 expected: three bytes; a header that declares 32 bytes in a buffer of 16
  (its port id and sequence number are wrong too); port id 7; sequence number 4, one
  less than expected, with every other field right.
\<close>

theorem checkResponse_check_order_witness:
  "checkResponse \<lparr>fd = 3, addr = \<lparr>Family = 16, Pad = 0, Pid = 9, Groups = 0\<rparr>\<rparr>
      [1, 2, 3] 5
     = Return (Some (TruncatedHeader 3))
   \<and> checkResponse \<lparr>fd = 3, addr = \<lparr>Family = 16, Pad = 0, Pid = 9, Groups = 0\<rparr>\<rparr>
      [32, 0, 0, 0, 16, 0, 0, 0, 4, 0, 0, 0, 7, 0, 0, 0] 5
     = Return (Some (TruncatedMessage 16 32))
   \<and> checkResponse \<lparr>fd = 3, addr = \<lparr>Family = 16, Pad = 0, Pid = 9, Groups = 0\<rparr>\<rparr>
      [16, 0, 0, 0, 16, 0, 0, 0, 4, 0, 0, 0, 7, 0, 0, 0] 5
     = Return (Some (PidMismatch 7 9))
   \<and> checkResponse \<lparr>fd = 3, addr = \<lparr>Family = 16, Pad = 0, Pid = 9, Groups = 0\<rparr>\<rparr>
      [16, 0, 0, 0, 16, 0, 0, 0, 4, 0, 0, 0, 9, 0, 0, 0] 5
     = Return (Some (SeqMismatch 4 5))"
proof -
  let ?s = "\<lparr>fd = 3, addr = \<lparr>Family = 16, Pad = 0, Pid = 9, Groups = 0\<rparr>\<rparr>"
  have "checkResponse ?s [1, 2, 3] 5 = Return (Some (TruncatedHeader 3))"
    using checkResponse_check_order [of "[1, 2, 3]" ?s 5] by simp
  moreover have "checkResponse ?s [32, 0, 0, 0, 16, 0, 0, 0, 4, 0, 0, 0, 7, 0, 0, 0] 5
      = Return (Some (TruncatedMessage 16 32))"
    using checkResponse_check_order [of "[32, 0, 0, 0, 16, 0, 0, 0, 4, 0, 0, 0, 7, 0, 0, 0]" ?s 5]
    by (simp add: NlMsghdr_Len_def load32_def)
  moreover have "checkResponse ?s [16, 0, 0, 0, 16, 0, 0, 0, 4, 0, 0, 0, 7, 0, 0, 0] 5
      = Return (Some (PidMismatch 7 9))"
    using checkResponse_check_order [of "[16, 0, 0, 0, 16, 0, 0, 0, 4, 0, 0, 0, 7, 0, 0, 0]" ?s 5]
    by (simp add: NlMsghdr_Len_def NlMsghdr_Pid_def load32_def)
  moreover have "checkResponse ?s [16, 0, 0, 0, 16, 0, 0, 0, 4, 0, 0, 0, 9, 0, 0, 0] 5
      = Return (Some (SeqMismatch 4 5))"
    using checkResponse_check_order [of "[16, 0, 0, 0, 16, 0, 0, 0, 4, 0, 0, 0, 9, 0, 0, 0]" ?s 5]
    by (simp add: NlMsghdr_Len_def NlMsghdr_Pid_def NlMsghdr_Seq_def load32_def)
  ultimately show ?thesis by simp
qed

lemma Errno_negated_code:
  fixes e :: "32 word"
  assumes "- (2 ^ 31) < sint e"
  shows "(scast (- e) :: uintptr) = word_of_int (- sint e)"
    and "sint (word_of_int (- sint e) :: uintptr) = - sint e"
proof -
  have hi: "sint e < 2 ^ 31" using sint_lt [of e] by simp
  have "- e = word_of_int (- sint e)" by simp
  moreover have "- (2 ^ 31) \<le> - sint e" "- sint e < 2 ^ 31"
    using assms hi by simp_all
  ultimately have "sint (- e) = - sint e"
    by (simp only: sint_sbintrunc') (simp add: signed_take_bit_int_eq_self)
  then show "(scast (- e) :: uintptr) = word_of_int (- sint e)"
    by (simp only: scast_eq)
  have "- (2 ^ 63) \<le> - sint e" "- sint e < 2 ^ 63"
    using assms hi by simp_all
  then show "sint (word_of_int (- sint e) :: uintptr) = - sint e"
    by (rule sint_of_int64)
qed

lemma Errno_unsigned:
  fixes e :: "32 word"
  assumes "- (2 ^ 31) < sint e" "sint e < 0"
  shows "uint (word_of_int (- sint e) :: uintptr) = - sint e"
proof -
  have "0 \<le> - sint e" "- sint e < 2 ^ 64"
    using assms by simp_all
  then show ?thesis
    by (simp only: unsigned_of_int) (simp add: take_bit_int_eq_self)
qed

text \<open>
  Claim C6, as the code has it. For a buffer that passes the four tests, has the error
  type and holds the error code (the declared length goes past the header, and the four
  bytes of the code lie in the buffer): code 0 is success with no error, and any other
  code is a \<open>NetlinkError\<close>. Its \<open>Errno\<close> is the code negated as an \<open>int32\<close> and
  converted to \<open>uintptr\<close>: for every code but the smallest \<open>int32\<close> that is the negated
  code, and for a negative code, as the kernel sends it, the code without its sign.
\<close>

theorem checkResponse_error_code:
  assumes "16 \<le> length d"
    and "uint (NlMsghdr_Len d 0) \<le> int (length d)"
    and "NlMsghdr_Pid d 0 = Pid (addr s)"
    and "NlMsghdr_Seq d 0 = expectedSeq"
    and "NlMsghdr_Type d 0 = NLMSG_ERROR"
    and "16 < uint (NlMsghdr_Len d 0)"
    and "20 \<le> length d"
  shows "(NlMsgerr_Error d 16 = 0 \<longrightarrow> checkResponse s d expectedSeq = Return None)
    \<and> (NlMsgerr_Error d 16 \<noteq> 0 \<longrightarrow>
         checkResponse s d expectedSeq
           = Return (Some (NetlinkError (scast (- NlMsgerr_Error d 16)))))
    \<and> (NlMsgerr_Error d 16 \<noteq> 0 \<and> - (2 ^ 31) < sint (NlMsgerr_Error d 16) \<longrightarrow>
         checkResponse s d expectedSeq
           = Return (Some (NetlinkError (word_of_int (- sint (NlMsgerr_Error d 16)))))
         \<and> sint (word_of_int (- sint (NlMsgerr_Error d 16)) :: uintptr)
             = - sint (NlMsgerr_Error d 16))
    \<and> (- (2 ^ 31) < sint (NlMsgerr_Error d 16) \<and> sint (NlMsgerr_Error d 16) < 0 \<longrightarrow>
         uint (word_of_int (- sint (NlMsgerr_Error d 16)) :: uintptr)
           = - sint (NlMsgerr_Error d 16))"
proof -
  have res: "checkResponse s d expectedSeq =
      (if NlMsgerr_Error d 16 = 0 then Return None
       else Return (Some (NetlinkError (scast (- NlMsgerr_Error d 16)))))"
    using assms by (simp add: checkResponse_def slice_len_def)
  show ?thesis
    using res Errno_negated_code [of "NlMsgerr_Error d 16"] Errno_unsigned [of "NlMsgerr_Error d 16"]
    by auto
qed

text \<open>An acknowledgement (code 0), and the same response with code -2, which gives errno 2.\<close>

theorem checkResponse_error_code_witness:
  "checkResponse \<lparr>fd = 3, addr = \<lparr>Family = 16, Pad = 0, Pid = 9, Groups = 0\<rparr>\<rparr>
      [20, 0, 0, 0, 2, 0, 0, 0, 5, 0, 0, 0, 9, 0, 0, 0, 0, 0, 0, 0] 5
     = Return None
   \<and> sint (NlMsgerr_Error
        [20, 0, 0, 0, 2, 0, 0, 0, 5, 0, 0, 0, 9, 0, 0, 0, 0xFE, 0xFF, 0xFF, 0xFF] 16) = - 2
   \<and> checkResponse \<lparr>fd = 3, addr = \<lparr>Family = 16, Pad = 0, Pid = 9, Groups = 0\<rparr>\<rparr>
      [20, 0, 0, 0, 2, 0, 0, 0, 5, 0, 0, 0, 9, 0, 0, 0, 0xFE, 0xFF, 0xFF, 0xFF] 5
     = Return (Some (NetlinkError 2))"
proof -
  let ?s = "\<lparr>fd = 3, addr = \<lparr>Family = 16, Pad = 0, Pid = 9, Groups = 0\<rparr>\<rparr>"
  let ?ack = "[20, 0, 0, 0, 2, 0, 0, 0, 5, 0, 0, 0, 9, 0, 0, 0, 0, 0, 0, 0] :: byte list"
  let ?err = "[20, 0, 0, 0, 2, 0, 0, 0, 5, 0, 0, 0, 9, 0, 0, 0, 0xFE, 0xFF, 0xFF, 0xFF] :: byte list"
  have "checkResponse ?s ?ack 5 = Return None"
    using checkResponse_error_code [of ?ack ?s 5]
    by (simp add: NlMsghdr_Len_def NlMsghdr_Pid_def NlMsghdr_Seq_def NlMsghdr_Type_def
        NlMsgerr_Error_def load32_def load16_def)
  moreover have e: "NlMsgerr_Error ?err 16 = - 2"
    by (simp add: NlMsgerr_Error_def load32_def)
  moreover have "checkResponse ?s ?err 5 = Return (Some (NetlinkError 2))"
    using checkResponse_error_code [of ?err ?s 5] e
    by (simp add: NlMsghdr_Len_def NlMsghdr_Pid_def NlMsghdr_Seq_def NlMsghdr_Type_def
        load32_def load16_def)
  ultimately show ?thesis by simp
qed

text \<open>
  The claim as it is written fails twice. An error message of 16 bytes, header only,
  passes the four tests, and \<open>checkResponse\<close> panics at \<open>&payload[0]\<close>: it returns
  neither success nor a \<open>NetlinkError\<close>; with one byte of payload, the code is read
  past the end of the buffer. And for the smallest \<open>int32\<close> as code the negation
  wraps around: the \<open>Errno\<close> is not \<open>2^31\<close>, the negated code.
\<close>

theorem checkResponse_error_code_counterexample:
  "length ([16, 0, 0, 0, 2, 0, 0, 0, 5, 0, 0, 0, 9, 0, 0, 0] :: byte list) = 16
   \<and> uint (NlMsghdr_Len [16, 0, 0, 0, 2, 0, 0, 0, 5, 0, 0, 0, 9, 0, 0, 0] 0) = 16
   \<and> NlMsghdr_Pid [16, 0, 0, 0, 2, 0, 0, 0, 5, 0, 0, 0, 9, 0, 0, 0] 0 = 9
   \<and> NlMsghdr_Seq [16, 0, 0, 0, 2, 0, 0, 0, 5, 0, 0, 0, 9, 0, 0, 0] 0 = 5
   \<and> NlMsghdr_Type [16, 0, 0, 0, 2, 0, 0, 0, 5, 0, 0, 0, 9, 0, 0, 0] 0 = NLMSG_ERROR
   \<and> checkResponse \<lparr>fd = 3, addr = \<lparr>Family = 16, Pad = 0, Pid = 9, Groups = 0\<rparr>\<rparr>
        [16, 0, 0, 0, 2, 0, 0, 0, 5, 0, 0, 0, 9, 0, 0, 0] 5
       = Panic
   \<and> checkResponse \<lparr>fd = 3, addr = \<lparr>Family = 16, Pad = 0, Pid = 9, Groups = 0\<rparr>\<rparr>
        [17, 0, 0, 0, 2, 0, 0, 0, 5, 0, 0, 0, 9, 0, 0, 0, 0] 5
       = OutOfBounds
   \<and> sint (NlMsgerr_Error
        [20, 0, 0, 0, 2, 0, 0, 0, 5, 0, 0, 0, 9, 0, 0, 0, 0, 0, 0, 0x80] 16) = - 2147483648
   \<and> checkResponse \<lparr>fd = 3, addr = \<lparr>Family = 16, Pad = 0, Pid = 9, Groups = 0\<rparr>\<rparr>
        [20, 0, 0, 0, 2, 0, 0, 0, 5, 0, 0, 0, 9, 0, 0, 0, 0, 0, 0, 0x80] 5
       = Return (Some (NetlinkError 0xFFFFFFFF80000000))
   \<and> uint (0xFFFFFFFF80000000 :: uintptr) \<noteq> 2147483648"
  by (simp add: checkResponse_def slice_len_def NlMsghdr_Len_def NlMsghdr_Pid_def
      NlMsghdr_Seq_def NlMsghdr_Type_def NlMsgerr_Error_def load32_def load16_def)

text \<open>
  The panics in general: a header that declares less than its own 16 bytes passes the
  four tests and panics at the slice \<open>data[NLMSG_HDRLEN:h.Len]\<close>, and an error message
  that ends with its header panics at \<open>&payload[0]\<close>. The source tests the length of
  the buffer before it reads the header, and not before it reads the error code.
\<close>

lemma checkResponse_declared_length_below_header:
  assumes "16 \<le> length d"
    and "NlMsghdr_Pid d 0 = Pid (addr s)"
    and "NlMsghdr_Seq d 0 = expectedSeq"
    and "uint (NlMsghdr_Len d 0) < 16"
  shows "checkResponse s d expectedSeq = Panic"
  using assms by (simp add: checkResponse_def slice_len_def)

lemma checkResponse_error_without_code:
  assumes "16 \<le> length d"
    and "NlMsghdr_Pid d 0 = Pid (addr s)"
    and "NlMsghdr_Seq d 0 = expectedSeq"
    and "NlMsghdr_Type d 0 = NLMSG_ERROR"
    and "uint (NlMsghdr_Len d 0) = 16"
  shows "checkResponse s d expectedSeq = Panic"
  using assms by (simp add: checkResponse_def slice_len_def)

text \<open>
  Claim C1 says that a message whose aligned declared length is less than the buffer
  length is refused as multiple messages. The source compares the other way round,
  \<open>int(h.Len) > align(len(data), NLMSG_ALIGNTO)\<close>, after it has returned for
  \<open>len(data) < int(h.Len)\<close>. Here a buffer of two 16-byte messages, the first one
  with the right port id and sequence number: its declared length 16 is aligned and
  less than 32, and \<open>checkResponse\<close> returns success.
\<close>

theorem checkResponse_trailing_message_accepted:
  "sint (align (int_of_uint32 (NlMsghdr_Len
       [16, 0, 0, 0, 16, 0, 0, 0, 5, 0, 0, 0, 9, 0, 0, 0,
        16, 0, 0, 0, 16, 0, 0, 0, 6, 0, 0, 0, 9, 0, 0, 0] 0)) NLMSG_ALIGNTO)
     < slice_len [16, 0, 0, 0, 16, 0, 0, 0, 5, 0, 0, 0, 9, 0, 0, 0,
        16, 0, 0, 0, 16, 0, 0, 0, 6, 0, 0, 0, 9, 0, 0, 0]
   \<and> checkResponse \<lparr>fd = 3, addr = \<lparr>Family = 16, Pad = 0, Pid = 9, Groups = 0\<rparr>\<rparr>
       [16, 0, 0, 0, 16, 0, 0, 0, 5, 0, 0, 0, 9, 0, 0, 0,
        16, 0, 0, 0, 16, 0, 0, 0, 6, 0, 0, 0, 9, 0, 0, 0] 5
     = Return None"
  by (simp add: checkResponse_def slice_len_def NlMsghdr_Len_def NlMsghdr_Pid_def
      NlMsghdr_Seq_def NlMsghdr_Type_def load32_def load16_def align_def int_of_uint32_def)

text \<open>
  The test for multiple messages never fires: the aligned buffer length is at least the
  buffer length, which is at least the declared length once the second test has passed.
\<close>

lemma checkResponse_never_MultipleMessages:
  assumes "int (length d) + 3 < 2 ^ 63"
  shows "checkResponse s d expectedSeq \<noteq> Return (Some MultipleMessages)"
proof -
  let ?n = "word_of_int (slice_len d) :: 64 word"
  have n: "sint ?n = int (length d)"
    using assms by (intro sint_word_of_len) simp
  then have "0 \<le> sint (align ?n 4)"
    using assms sint_align4 [of ?n] by simp
  then have "int (length d) \<le> sint (align ?n 4)"
    using align4_ge [of ?n] n by simp
  then show ?thesis
    by (simp add: checkResponse_def slice_len_def)
qed

section \<open>Properties of the parser\<close>

lemma sint_plus_uint:
  fixes p n :: "64 word"
  assumes "sint p + uint n < 2 ^ 63"
  shows "sint (p + n) = sint p + uint n"
proof -
  have "p + n = word_of_int (sint p + uint n)" by simp
  moreover have "- (2 ^ 63) \<le> sint p + uint n"
    using sint_range64(1) [of p] uint_ge_0 [of n] by linarith
  ultimately show ?thesis using assms by (simp only: sint_of_int64)
qed

text \<open>
  Claim C10, as the code has it. Whenever \<open>Advance\<close> returns an error it returns the
  parser unchanged. Provided the cursor plus \<open>n\<close> (read as the unsigned number it is)
  does not exceed the largest \<open>int\<close>: when that sum is past the end of the data,
  \<open>Advance\<close> returns the truncated-payload error and the parser unchanged; otherwise
  it returns no error and the cursor moved by exactly \<open>n\<close>.
\<close>

theorem Advance_atomic:
  "(snd (Advance nlmsg n) \<noteq> None \<longrightarrow> fst (Advance nlmsg n) = nlmsg)
   \<and> (sint (pos nlmsg) + uint n < 2 ^ 63 \<longrightarrow>
        (if int (length (data nlmsg)) < sint (pos nlmsg) + uint n
         then Advance nlmsg n = (nlmsg, Some (TruncatedPayload (pos nlmsg) n))
         else Advance nlmsg n = (nlmsg\<lparr>pos := pos nlmsg + n\<rparr>, None)
              \<and> sint (pos nlmsg + n) = sint (pos nlmsg) + uint n))"
proof -
  have "snd (Advance nlmsg n) \<noteq> None \<longrightarrow> fst (Advance nlmsg n) = nlmsg"
    by (simp add: Advance_def Let_def)
  moreover have "sint (pos nlmsg) + uint n < 2 ^ 63 \<longrightarrow>
        (if int (length (data nlmsg)) < sint (pos nlmsg) + uint n
         then Advance nlmsg n = (nlmsg, Some (TruncatedPayload (pos nlmsg) n))
         else Advance nlmsg n = (nlmsg\<lparr>pos := pos nlmsg + n\<rparr>, None)
              \<and> sint (pos nlmsg + n) = sint (pos nlmsg) + uint n)"
  proof
    assume "sint (pos nlmsg) + uint n < 2 ^ 63"
    then have "sint (pos nlmsg + n) = sint (pos nlmsg) + uint n"
      by (rule sint_plus_uint)
    then show "if int (length (data nlmsg)) < sint (pos nlmsg) + uint n
         then Advance nlmsg n = (nlmsg, Some (TruncatedPayload (pos nlmsg) n))
         else Advance nlmsg n = (nlmsg\<lparr>pos := pos nlmsg + n\<rparr>, None)
              \<and> sint (pos nlmsg + n) = sint (pos nlmsg) + uint n"
      by (simp add: Advance_def Let_def slice_len_def)
  qed
  ultimately show ?thesis by simp
qed

text \<open>A parser at 4 in 8 bytes: advancing by 5 fails and leaves it at 4, by 4 moves it to 8.\<close>

theorem Advance_atomic_witness:
  "Advance \<lparr>data = [1, 2, 3, 4, 5, 6, 7, 8], pos = 4\<rparr> 5
     = (\<lparr>data = [1, 2, 3, 4, 5, 6, 7, 8], pos = 4\<rparr>, Some (TruncatedPayload 4 5))
   \<and> Advance \<lparr>data = [1, 2, 3, 4, 5, 6, 7, 8], pos = 4\<rparr> 4
     = (\<lparr>data = [1, 2, 3, 4, 5, 6, 7, 8], pos = 8\<rparr>, None)"
proof -
  have "Advance \<lparr>data = [1, 2, 3, 4, 5, 6, 7, 8], pos = 4\<rparr> 5
     = (\<lparr>data = [1, 2, 3, 4, 5, 6, 7, 8], pos = 4\<rparr>, Some (TruncatedPayload 4 5))"
    using Advance_atomic [of "\<lparr>data = [1, 2, 3, 4, 5, 6, 7, 8], pos = 4\<rparr>" 5] by simp
  moreover have "Advance \<lparr>data = [1, 2, 3, 4, 5, 6, 7, 8], pos = 4\<rparr> 4
     = (\<lparr>data = [1, 2, 3, 4, 5, 6, 7, 8], pos = 8\<rparr>, None)"
    using Advance_atomic [of "\<lparr>data = [1, 2, 3, 4, 5, 6, 7, 8], pos = 4\<rparr>" 4] by simp
  ultimately show ?thesis by simp
qed

text \<open>
  Without the bound, \<open>int(n)\<close> is negative for \<open>n\<close> from \<open>2^63\<close> on: advancing a
  cursor at 2 in 4 bytes by the largest \<open>uintptr\<close> would end far past the data, yet
  \<open>Advance\<close> returns no error and moves the cursor back to 1.
\<close>

theorem Advance_overflow_counterexample:
  "int (length (data \<lparr>data = [1, 2, 3, 4], pos = 2\<rparr>))
     < sint (pos \<lparr>data = [1, 2, 3, 4], pos = 2\<rparr>) + uint (0xFFFFFFFFFFFFFFFF :: uintptr)
   \<and> Advance \<lparr>data = [1, 2, 3, 4], pos = 2\<rparr> 0xFFFFFFFFFFFFFFFF
     = (\<lparr>data = [1, 2, 3, 4], pos = 1\<rparr>, None)"
  by (simp add: Advance_def Let_def slice_len_def)

text \<open>
  Claim C4 says that \<open>TakeNlMsghdr\<close> reads the header at the cursor. The source reads
  \<open>nlMsghdrAt(nlmsg.data, 0)\<close>, the header at offset 0, wherever the cursor is, while
  \<open>TakeAttrs\<close> reads at \<open>nlmsg.pos\<close>. Here a buffer of two headers, of type 1 at
  offset 0 and of type 2 at offset 16, and the cursor at 16: the header at the cursor has
  the expected type 2, and \<open>TakeNlMsghdr\<close> fails with the wrong-type error for type 1.
  The cursor still moves past a header, to 32.
\<close>

theorem TakeNlMsghdr_reads_offset_0:
  "NlMsghdr_Type [16, 0, 0, 0, 1, 0, 0, 0, 5, 0, 0, 0, 9, 0, 0, 0,
       16, 0, 0, 0, 2, 0, 0, 0, 6, 0, 0, 0, 9, 0, 0, 0] 16 = 2
   \<and> TakeNlMsghdr \<lparr>data = [16, 0, 0, 0, 1, 0, 0, 0, 5, 0, 0, 0, 9, 0, 0, 0,
       16, 0, 0, 0, 2, 0, 0, 0, 6, 0, 0, 0, 9, 0, 0, 0], pos = 16\<rparr> 2
     = Return (\<lparr>data = [16, 0, 0, 0, 1, 0, 0, 0, 5, 0, 0, 0, 9, 0, 0, 0,
       16, 0, 0, 0, 2, 0, 0, 0, 6, 0, 0, 0, 9, 0, 0, 0], pos = 32\<rparr>, None, Some (WrongType 1 2))"
  by (simp add: TakeNlMsghdr_def NlMsghdr_Type_def load16_def slice_len_def)

text \<open>
  What \<open>TakeNlMsghdr\<close> does on a buffer of 6 bytes or more: the cursor moves by 16, and
  the type compared is the one at offset 0.
\<close>

lemma TakeNlMsghdr_result:
  assumes "6 \<le> length (data nlmsg)"
  shows "TakeNlMsghdr nlmsg expectType =
    Return (nlmsg\<lparr>pos := pos nlmsg + NLMSG_HDRLEN\<rparr>,
      (if NlMsghdr_Type (data nlmsg) 0 = expectType then Some 0 else None),
      (if NlMsghdr_Type (data nlmsg) 0 = expectType then None
       else Some (WrongType (NlMsghdr_Type (data nlmsg) 0) expectType)))"
  using assms by (auto simp add: TakeNlMsghdr_def slice_len_def)

text \<open>On an empty buffer it panics, and below 6 bytes the type lies outside the buffer.\<close>

lemma TakeNlMsghdr_short_buffer:
  "TakeNlMsghdr \<lparr>data = [], pos = p\<rparr> expectType = Panic"
  "TakeNlMsghdr \<lparr>data = [b0, b1, b2, b3, b4], pos = p\<rparr> expectType = OutOfBounds"
  by (simp_all add: TakeNlMsghdr_def slice_len_def)

text \<open>
  Claim C3 says that \<open>TakeAttrs\<close> either returns a map or fails with the
  truncated-attribute error, also for an attribute whose declared length is below the
  4 bytes of the prefix. The source tests that the declared length fits the buffer, not
  that it covers the prefix: for a declared length of 0 or 3 the value would be
  \<open>data[4:0]\<close> or \<open>data[4:3]\<close>, and the slice expression panics.
\<close>

theorem TakeAttrs_short_length_panics:
  "TakeAttrs \<lparr>data = [0, 0, 1, 0], pos = 0\<rparr> = Panic
   \<and> TakeAttrs \<lparr>data = [3, 0, 1, 0, 0xAA, 0, 0, 0], pos = 0\<rparr> = Panic"
  by (simp add: TakeAttrs_def checkData_def index_ok_def slice_ok_def slice_len_def
      RtAttr_Len_def load16_def align_def int_of_uint16_def TakeAttrs_loop.simps)

text \<open>
  Apart from that the claim holds: the loop ends on every input (its termination is
  proved with the definition), it returns the map or the truncated-attribute error unless
  it panics, and it reads no byte outside the buffer.
\<close>

lemma checkData_outcome:
  "checkData nlmsg l ''netlink attribute'' \<noteq> None \<Longrightarrow>
   attrs_outcome (Return (nlmsg', m, checkData nlmsg l ''netlink attribute''))"
  by (simp add: checkData_def attrs_outcome_def split: if_splits)

lemma TakeAttrs_loop_outcome: "attrs_outcome (TakeAttrs_loop nlmsg attrs)"
proof (induction nlmsg attrs rule: TakeAttrs_loop.induct)
  case (1 nlmsg attrs)
  define apos where "apos = align (pos nlmsg) RTA_ALIGNTO"
  define n1 where "n1 = nlmsg\<lparr>pos := apos\<rparr>"
  define rta_Len where "rta_Len = RtAttr_Len (data nlmsg) (nat (sint apos))"
  define rta_Type where "rta_Type = RtAttr_Type (data nlmsg) (nat (sint apos))"
  define valpos where "valpos = align (apos + SizeofRtAttr) RTA_ALIGNTO"
  define hi where "hi = apos + int_of_uint16 rta_Len"
  note defs = apos_def [symmetric] n1_def [symmetric] rta_Len_def [symmetric]
    rta_Type_def [symmetric] valpos_def [symmetric] hi_def [symmetric]
  consider (finished) "slice_len (data nlmsg) \<le> sint apos"
    | (err1) "\<not> slice_len (data nlmsg) \<le> sint apos"
        "checkData n1 SizeofRtAttr ''netlink attribute'' \<noteq> None"
    | (panic1) "\<not> slice_len (data nlmsg) \<le> sint apos"
        "checkData n1 SizeofRtAttr ''netlink attribute'' = None"
        "\<not> index_ok (data nlmsg) apos"
    | (oob) "\<not> slice_len (data nlmsg) \<le> sint apos"
        "checkData n1 SizeofRtAttr ''netlink attribute'' = None"
        "index_ok (data nlmsg) apos" "slice_len (data nlmsg) < sint apos + 4"
    | (err2) "\<not> slice_len (data nlmsg) \<le> sint apos"
        "checkData n1 SizeofRtAttr ''netlink attribute'' = None"
        "index_ok (data nlmsg) apos" "\<not> slice_len (data nlmsg) < sint apos + 4"
        "checkData n1 (int_of_uint16 rta_Len) ''netlink attribute'' \<noteq> None"
    | (panic2) "\<not> slice_len (data nlmsg) \<le> sint apos"
        "checkData n1 SizeofRtAttr ''netlink attribute'' = None"
        "index_ok (data nlmsg) apos" "\<not> slice_len (data nlmsg) < sint apos + 4"
        "checkData n1 (int_of_uint16 rta_Len) ''netlink attribute'' = None"
        "\<not> slice_ok (data nlmsg) valpos hi"
    | (more) "\<not> slice_len (data nlmsg) \<le> sint apos"
        "checkData n1 SizeofRtAttr ''netlink attribute'' = None"
        "index_ok (data nlmsg) apos" "\<not> slice_len (data nlmsg) < sint apos + 4"
        "checkData n1 (int_of_uint16 rta_Len) ''netlink attribute'' = None"
        "slice_ok (data nlmsg) valpos hi"
    by blast
  then show ?case
  proof cases
    case finished
    then show ?thesis
      by (subst TakeAttrs_loop.simps) (simp add: Let_def defs attrs_outcome_def)
  next
    case err1
    then show ?thesis
      by (subst TakeAttrs_loop.simps) (simp add: Let_def defs checkData_outcome)
  next
    case panic1
    then show ?thesis
      by (subst TakeAttrs_loop.simps) (simp add: Let_def defs attrs_outcome_def)
  next
    case oob
    then show ?thesis
      by (subst TakeAttrs_loop.simps) (simp add: Let_def defs attrs_outcome_def)
  next
    case err2
    then show ?thesis
      by (subst TakeAttrs_loop.simps) (simp add: Let_def defs checkData_outcome)
  next
    case panic2
    then show ?thesis
      by (subst TakeAttrs_loop.simps) (simp add: Let_def defs attrs_outcome_def)
  next
    case more
    have "attrs_outcome (TakeAttrs_loop (nlmsg\<lparr>pos := apos + int_of_uint16 rta_Len\<rparr>)
        (attrs(rta_Type \<mapsto> slice (data nlmsg) valpos (apos + int_of_uint16 rta_Len))))"
      by (rule "1.IH" [OF apos_def _ _ _ _ rta_Len_def rta_Type_def refl _ valpos_def])
        (use more in \<open>simp_all add: n1_def hi_def\<close>)
    with more show ?thesis
      by (subst TakeAttrs_loop.simps) (simp add: Let_def defs)
  qed
qed

lemma checkData_prefix_in_bounds:
  assumes "checkData (nlmsg\<lparr>pos := apos\<rparr>) SizeofRtAttr obj = None"
    and "index_ok (data nlmsg) apos"
    and "slice_len (data nlmsg) + 4 < 2 ^ 63"
  shows "\<not> slice_len (data nlmsg) < sint apos + 4"
proof -
  have "0 \<le> sint apos" "sint apos < slice_len (data nlmsg)"
    using assms(2) by (simp_all add: index_ok_def)
  then have "sint apos + 4 < 2 ^ 63"
    using assms(3) by linarith
  then have "sint (apos + 4) = sint apos + 4"
    using sint_plus_small [of 4 apos] by simp
  moreover have "sint (apos + 4) \<le> slice_len (data nlmsg)"
    using assms(1) by (simp add: checkData_def split: if_splits)
  ultimately show ?thesis by simp
qed

lemma TakeAttrs_loop_in_bounds:
  assumes "slice_len (data nlmsg) + 4 < 2 ^ 63"
  shows "TakeAttrs_loop nlmsg attrs \<noteq> OutOfBounds"
  using assms
proof (induction nlmsg attrs rule: TakeAttrs_loop.induct)
  case (1 nlmsg attrs)
  define apos where "apos = align (pos nlmsg) RTA_ALIGNTO"
  define rta_Len where "rta_Len = RtAttr_Len (data nlmsg) (nat (sint apos))"
  define rta_Type where "rta_Type = RtAttr_Type (data nlmsg) (nat (sint apos))"
  define valpos where "valpos = align (apos + SizeofRtAttr) RTA_ALIGNTO"
  note defs = apos_def [symmetric] rta_Len_def [symmetric]
    rta_Type_def [symmetric] valpos_def [symmetric]
  have inb: "\<not> slice_len (data nlmsg) < sint apos + 4"
    if "checkData (nlmsg\<lparr>pos := apos\<rparr>) SizeofRtAttr ''netlink attribute'' = None"
      and "index_ok (data nlmsg) apos"
    using that "1.prems" by (rule checkData_prefix_in_bounds)
  show ?case
  proof (cases "\<not> slice_len (data nlmsg) \<le> sint apos
      \<and> checkData (nlmsg\<lparr>pos := apos\<rparr>) SizeofRtAttr ''netlink attribute'' = None
      \<and> index_ok (data nlmsg) apos
      \<and> checkData (nlmsg\<lparr>pos := apos\<rparr>) (int_of_uint16 rta_Len) ''netlink attribute'' = None
      \<and> slice_ok (data nlmsg) valpos (apos + int_of_uint16 rta_Len)")
    case True
    have "TakeAttrs_loop (nlmsg\<lparr>pos := apos + int_of_uint16 rta_Len\<rparr>)
        (attrs(rta_Type \<mapsto> slice (data nlmsg) valpos (apos + int_of_uint16 rta_Len)))
        \<noteq> OutOfBounds"
      by (rule "1.IH" [OF apos_def _ _ _ _ rta_Len_def rta_Type_def refl _ valpos_def])
        (use True inb "1.prems" in simp_all)
    with True inb show ?thesis
      by (subst TakeAttrs_loop.simps) (simp add: Let_def defs)
  next
    case False
    with inb show ?thesis
      by (subst TakeAttrs_loop.simps) (auto simp add: Let_def defs)
  qed
qed

section \<open>Properties of the attribute map\<close>

text \<open>
  Claim C2 says that \<open>GetUint16\<close> fails on a value that is not 2 bytes long, as it
  does on a missing attribute. The source returns \<open>0, err\<close> there, and \<open>err\<close> is the
  error of \<open>Get\<close>, which is nil at that point: a value of 1 or 3 bytes gives 0 and no
  error, where a missing attribute gives the missing-attribute error.
\<close>

theorem GetUint16_wrong_length_succeeds:
  "GetUint16 [7 \<mapsto> [1]] 7 = (0, None) \<and> GetUint16 [7 \<mapsto> [1, 2, 3]] 7 = (0, None)
   \<and> GetUint16 Map.empty 7 = (0, Some (MissingAttribute 7))"
  by (simp add: GetUint16_def Get_def slice_len_def)

lemma GetUint16_wrong_length:
  "attrs typ = Some val \<Longrightarrow> length val \<noteq> 2 \<Longrightarrow> GetUint16 attrs typ = (0, None)"
  by (simp add: GetUint16_def Get_def slice_len_def)

lemma GetUint16_missing:
  "attrs typ = None \<Longrightarrow> GetUint16 attrs typ = (0, Some (MissingAttribute typ))"
  by (simp add: GetUint16_def Get_def)

section \<open>Building a message and parsing it back\<close>

text \<open>
  The run of the builder on one string attribute, step by step: the 16-byte header, the
  attribute \<open>eth0\<close> (the buffer grows once, from capacity 16 to 25), and \<open>Finish\<close>.
\<close>

lemma u16_of_bytes [simp]:
  "ucast (ucast w :: byte) OR push_bit 8 (ucast (ucast (drop_bit 8 w) :: byte)) = (w :: 16 word)"
  by (rule bit_eqI) (auto simp add: bit_simps)

lemma expand_cap_20_25: "expand_cap 20 25 = Some 25"
  by (subst expand_cap.simps) simp

lemma go_div_51_2: "go_div 51 2 = 25"
  by (simp add: go_div_def signed_divide_int_def)

lemma new_builder:
  "NewNlMsgBuilder F T = Some (Return \<lparr>buf = \<lparr>backing =
     [0, 0, 0, 0, ucast T, ucast (drop_bit 8 T), ucast F, ucast (drop_bit 8 F),
      0, 0, 0, 0, 0, 0, 0, 0], count = 16\<rparr>\<rparr>)"
  by (simp add: NewNlMsgBuilder_def and_then_def make_bytes_def maxAlloc_def store16_def
      numeral_eq_Suc replicate_Suc)

lemma replicate_25: "replicate 25 (0::byte) = [0,0,0,0,0, 0,0,0,0,0, 0,0,0,0,0, 0,0,0,0,0, 0,0,0,0,0]"
  by (simp add: numeral_eq_Suc)

lemma put_eth0:
  "PutStringRtAttr \<lparr>buf = \<lparr>backing =
     [0, 0, 0, 0, t0, t1, f0, f1, 0, 0, 0, 0, 0, 0, 0, 0], count = 16\<rparr>\<rparr> A ''eth0''
   = Some (Return \<lparr>buf = \<lparr>backing =
     [0, 0, 0, 0, t0, t1, f0, f1, 0, 0, 0, 0, 0, 0, 0, 0,
      9, 0, ucast A, ucast (drop_bit 8 A), 101, 116, 104, 48, 0], count = 25\<rparr>\<rparr>)"
  by (simp add: PutStringRtAttr_def PutRtAttr_def NlMsgBuilder_Align_def Grow_def grow_to_def
      and_then_def go_len_def go_cap_def align_def expand_def expand_cap_20_25 go_div_51_2
      make_bytes_def maxAlloc_def copy_bytes_def bytes_of_def reslice_to_def replicate_25
      addStringZ_def bytes_of_string_def index_ok_def slice_ok_def slice_len_def
      store16_def Let_def)

lemma finish_eth0:
  "Finish c \<lparr>buf = \<lparr>backing =
     [0, 0, 0, 0, t0, t1, f0, f1, 0, 0, 0, 0, 0, 0, 0, 0,
      9, 0, a0, a1, 101, 116, 104, 48, 0], count = 25\<rparr>\<rparr>
   = Return (\<lparr>backing =
     [25, 0, 0, 0, t0, t1, f0, f1,
      ucast (c + 1), ucast (drop_bit 8 (c + 1)), ucast (drop_bit 16 (c + 1)),
      ucast (drop_bit 24 (c + 1)), 0, 0, 0, 0,
      9, 0, a0, a1, 101, 116, 104, 48, 0], count = 25\<rparr>,
     c + 1, \<lparr>buf = nil_slice\<rparr>, c + 1)"
  by (simp add: Finish_def index_ok_def bytes_of_def slice_len_def go_len_def store32_def
      Let_def)

lemma build_eth0:
  "and_then (NewNlMsgBuilder F T) (\<lambda>b.
     and_then (PutStringRtAttr b A ''eth0'') (\<lambda>b. Some (Finish c b)))
   = Some (Return (\<lparr>backing =
     [25, 0, 0, 0, ucast T, ucast (drop_bit 8 T), ucast F, ucast (drop_bit 8 F),
      ucast (c + 1), ucast (drop_bit 8 (c + 1)), ucast (drop_bit 16 (c + 1)),
      ucast (drop_bit 24 (c + 1)), 0, 0, 0, 0,
      9, 0, ucast A, ucast (drop_bit 8 A), 101, 116, 104, 48, 0], count = 25\<rparr>,
     c + 1, \<lparr>buf = nil_slice\<rparr>, c + 1))"
  by (simp add: new_builder put_eth0 finish_eth0 and_then_def)

lemma parse_eth0:
  "TakeNlMsghdr (NewNlMsgButcher
     [25, 0, 0, 0, ucast T, ucast (drop_bit 8 T), f0, f1, s0, s1, s2, s3, 0, 0, 0, 0,
      9, 0, ucast A, ucast (drop_bit 8 A), 101, 116, 104, 48, 0]) T
   = Return (\<lparr>data =
     [25, 0, 0, 0, ucast T, ucast (drop_bit 8 T), f0, f1, s0, s1, s2, s3, 0, 0, 0, 0,
      9, 0, ucast A, ucast (drop_bit 8 A), 101, 116, 104, 48, 0], pos = 16\<rparr>, Some 0, None)"
  by (simp add: TakeNlMsghdr_def NewNlMsgButcher_def NlMsghdr_Type_def load16_def slice_len_def)

lemma attrs_eth0:
  "TakeAttrs \<lparr>data =
     [h0, h1, h2, h3, h4, h5, h6, h7, h8, h9, h10, h11, h12, h13, h14, h15,
      9, 0, ucast A, ucast (drop_bit 8 A), 101, 116, 104, 48, 0], pos = 16\<rparr>
   = Return (\<lparr>data =
     [h0, h1, h2, h3, h4, h5, h6, h7, h8, h9, h10, h11, h12, h13, h14, h15,
      9, 0, ucast A, ucast (drop_bit 8 A), 101, 116, 104, 48, 0], pos = 25\<rparr>,
     [A \<mapsto> [101, 116, 104, 48, 0]], None)"
  by (simp add: TakeAttrs_def checkData_def index_ok_def slice_ok_def slice_def slice_len_def
      RtAttr_Len_def RtAttr_Type_def load16_def align_def int_of_uint16_def
      TakeAttrs_loop.simps)

text \<open>The nine bytes that \<open>PutStringRtAttr\<close> appended are the attribute as it is on the wire.\<close>

lemma rtattr_bytes_eth0:
  "rtattr_bytes (A, bytes_of_string ''eth0'' @ [0], [])
    = [9, 0, ucast A, ucast (drop_bit 8 A), 101, 116, 104, 48, 0]"
  by (simp add: rtattr_bytes_def le16_def bytes_of_string_def)

text \<open>
  Claim C5. For all flags \<open>F\<close>, types \<open>T\<close> and attribute types \<open>A\<close> (and any value
  of the sequence counter): \<open>NewNlMsgBuilder(F, T)\<close>, \<open>PutStringRtAttr(A, "eth0")\<close> and
  \<open>Finish\<close> return a buffer whose header has \<open>Len\<close> equal to the length of the buffer,
  \<open>Type\<close> equal to \<open>T\<close> and \<open>Flags\<close> equal to \<open>F\<close>; on that buffer \<open>TakeNlMsghdr\<close>
  expecting \<open>T\<close> and then \<open>TakeAttrs\<close> return without error, and the map binds \<open>A\<close>
  to the 5 bytes of \<open>eth0\<close> followed by a zero byte.
\<close>

theorem build_parse_roundtrip:
  "\<exists>res seq nlmsg' counter'.
     and_then (NewNlMsgBuilder F T) (\<lambda>b.
       and_then (PutStringRtAttr b A ''eth0'') (\<lambda>b. Some (Finish counter b)))
       = Some (Return (res, seq, nlmsg', counter'))
     \<and> uint (NlMsghdr_Len (bytes_of res) 0) = int (length (bytes_of res))
     \<and> NlMsghdr_Type (bytes_of res) 0 = T
     \<and> NlMsghdr_Flags (bytes_of res) 0 = F
     \<and> (\<exists>n1 h n2 attrs.
           TakeNlMsghdr (NewNlMsgButcher (bytes_of res)) T = Return (n1, h, None)
           \<and> TakeAttrs n1 = Return (n2, attrs, None)
           \<and> attrs A = Some (bytes_of_string ''eth0'' @ [0])
           \<and> length (bytes_of_string ''eth0'' @ [0]) = 5)"
  by (simp add: build_eth0 bytes_of_def parse_eth0 attrs_eth0 NlMsghdr_Len_def
      NlMsghdr_Type_def NlMsghdr_Flags_def load32_def load16_def bytes_of_string_def)

section \<open>Attributes that share a type\<close>

lemma load16_le16: "load16 (pre @ le16 w @ xs) (length pre) = w"
  by (simp add: load16_def le16_def nth_append)

lemma load16_le16_2: "load16 (pre @ a # b # le16 w @ xs) (Suc (Suc (length pre))) = w"
  by (simp add: load16_def le16_def nth_append)

lemma TakeAttrs_loop_end:
  "int (length d) \<le> sint (align p 4) \<Longrightarrow>
   TakeAttrs_loop \<lparr>data = d, pos = p\<rparr> attrs = Return (\<lparr>data = d, pos = p\<rparr>, attrs, None)"
  by (subst TakeAttrs_loop.simps) (simp add: slice_len_def)

lemma sint_align4_mod: "0 \<le> sint (align x 4) \<Longrightarrow> sint (align x 4) mod 4 = 0"
proof -
  assume nn: "0 \<le> sint (align x 4)"
  have "sint x + 3 < 2 ^ 63"
    using sint_align4_overflow [of x] nn by (cases "sint x + 3 < 2 ^ 63") simp_all
  then have "sint (align x 4) = (sint x + 3) - (sint x + 3) mod 4"
    by (rule sint_align4)
  then show ?thesis by (simp add: minus_mod_eq_mult_div)
qed

lemma sint_align4_aligned:
  assumes "sint x mod 4 = 0" "sint x + 3 < 2 ^ 63"
  shows "sint (align x 4) = sint x"
proof -
  have "sint (align x 4) = (sint x + 3) - (sint x + 3) mod 4"
    using assms(2) by (rule sint_align4)
  moreover have "(sint x + 3) mod 4 = 3" using assms(1) by presburger
  ultimately show ?thesis by simp
qed

lemma uint_word_of_nat16: "n < 65536 \<Longrightarrow> uint (word_of_nat n :: 16 word) = int n"
  by (simp add: unsigned_of_nat take_bit_nat_eq_self)

lemma TakeAttrs_loop_step:
  assumes a: "sint (align p 4) = int (length pre)"
    and v: "length v \<le> 65531"
    and bound: "int (length (pre @ rtattr_bytes (t, v, pad) @ rest)) + 3 < 2 ^ 63"
  shows "TakeAttrs_loop \<lparr>data = pre @ rtattr_bytes (t, v, pad) @ rest, pos = p\<rparr> attrs
    = TakeAttrs_loop \<lparr>data = pre @ rtattr_bytes (t, v, pad) @ rest,
        pos = align p 4 + word_of_nat (4 + length v)\<rparr> (attrs(t \<mapsto> v))"
proof -
  define d where "d = pre @ rtattr_bytes (t, v, pad) @ rest"
  define apos where "apos = align p 4"
  define n :: "16 word" where "n = word_of_nat (4 + length v)"
  have d_eq: "d = pre @ le16 n @ le16 t @ v @ pad @ rest"
    by (simp add: d_def rtattr_bytes_def n_def)
  have len: "int (length d) = int (length pre) + 4 + int (length v) + int (length pad) + int (length rest)"
    by (simp add: d_eq le16_def)
  have big: "int (length d) + 3 < 2 ^ 63"
    using bound by (simp add: d_def)
  have sa: "sint apos = int (length pre)"
    using a by (simp add: apos_def)
  have "uint n = int (4 + length v)"
    unfolding n_def using v by (intro uint_word_of_nat16) simp
  then have un: "uint n = 4 + int (length v)"
    by simp
  have s4: "sint (apos + 4) = int (length pre) + 4"
    using sint_plus_uint [of apos 4] sa len big by simp
  have sn: "sint (apos + int_of_uint16 n) = int (length pre) + 4 + int (length v)"
  proof -
    have "uint (int_of_uint16 n) = uint n"
      by (simp add: int_of_uint16_def uint_up_ucast is_up)
    then show ?thesis
      using sint_plus_uint [of apos "int_of_uint16 n"] sa un len big by simp
  qed
  have m4: "sint (apos + 4) mod 4 = 0"
    using sint_align4_mod [of p] a s4 by (simp add: apos_def)
  have sv: "sint (align (apos + 4) 4) = int (length pre) + 4"
    using sint_align4_aligned [OF m4] s4 len big by simp
  have rl: "RtAttr_Len d (length pre) = n"
    by (simp add: RtAttr_Len_def d_eq load16_le16)
  have rt: "RtAttr_Type d (length pre) = t"
    by (simp add: RtAttr_Type_def d_eq le16_def [of n] load16_le16_2)
  have sl: "slice d (align (apos + 4) 4) (apos + int_of_uint16 n) = v"
    by (simp add: slice_def sv sn nat_add_distrib d_eq le16_def)
  have "int_of_uint16 n = word_of_int (uint n)"
    by (simp only: int_of_uint16_def ucast_eq)
  then have conv: "int_of_uint16 n = word_of_nat (4 + length v)"
    by (simp add: un)
  have "TakeAttrs_loop \<lparr>data = d, pos = p\<rparr> attrs
      = TakeAttrs_loop \<lparr>data = d, pos = apos + int_of_uint16 n\<rparr> (attrs(t \<mapsto> v))"
    by (subst TakeAttrs_loop.simps)
      (simp add: Let_def apos_def [symmetric] sa s4 sn sv rl rt sl checkData_def index_ok_def
        slice_ok_def slice_len_def len)
  then show ?thesis
    by (simp only: conv d_def apos_def)
qed

lemma int_padlen: "int (padlen n) = (int n + 3) - (int n + 3) mod 4 - int n"
proof -
  define r where "r = n mod 4"
  have r: "r < 4" by (simp add: r_def)
  have n: "n = 4 * (n div 4) + r" by (simp add: r_def)
  have p: "padlen n = (4 - r) mod 4" by (simp add: padlen_def r_def)
  have "(int n + 3) mod 4 = (int r + 3) mod 4"
  proof -
    have "int n + 3 = 4 * int (n div 4) + (int r + 3)"
      using n by (metis (no_types) of_nat_add of_nat_mult of_nat_numeral add.assoc)
    then show ?thesis by (simp only: mod_mult_self4)
  qed
  moreover have "r = 0 \<or> r = 1 \<or> r = 2 \<or> r = 3" using r by linarith
  moreover have "int n = 4 * int (n div 4) + int r"
    using n by (metis (no_types) of_nat_add of_nat_mult of_nat_numeral)
  ultimately show ?thesis
    using p by (elim disjE) simp_all
qed

lemma uint_of_nat64: "n < 2 ^ 63 \<Longrightarrow> uint (word_of_nat n :: 64 word) = int n"
proof -
  assume "n < 2 ^ 63"
  then have "n < 2 ^ 64" by (rule less_trans) simp
  then show ?thesis
    by (simp add: unsigned_of_nat take_bit_nat_eq_self)
qed

lemma sint_align_after_attr:
  assumes a: "sint (align p 4) = int (length pre)"
    and bound: "int (length pre) + 4 + int n + 3 < 2 ^ 63"
  shows "sint (align (align p 4 + word_of_nat (4 + n)) 4)
    = int (length pre) + 4 + int n + int (padlen n)"
proof -
  define q where "q = align p 4 + word_of_nat (4 + n)"
  define a where "a = int (length pre)"
  have "int (4 + n) < 2 ^ 63"
    using bound by simp
  then have "4 + n < 2 ^ 63"
    by (simp only: of_nat_less_iff [of "4 + n" "2 ^ 63", where ?'a = int, symmetric] of_nat_power of_nat_numeral)
  then have "uint (word_of_nat (4 + n) :: 64 word) = int (4 + n)"
    by (rule uint_of_nat64)
  then have sq: "sint q = a + 4 + int n"
    unfolding q_def a_def
    using sint_plus_uint [of "align p 4" "word_of_nat (4 + n)"] assms by simp
  have m: "a mod 4 = 0"
    using sint_align4_mod [of p] assms(1) by (simp add: a_def)
  then obtain k where "a = 4 * k" by (auto simp add: mod_eq_0_iff_dvd elim: dvdE)
  then have "a + 4 + int n + 3 = (int n + 3) + 4 * (k + 1)" by simp
  then have md: "(a + 4 + int n + 3) mod 4 = (int n + 3) mod 4"
    by (simp only: mod_mult_self2)
  have "sint (align q 4) = (sint q + 3) - (sint q + 3) mod 4"
    using sq bound by (intro sint_align4) (simp add: a_def)
  also have "\<dots> = a + 4 + int n + int (padlen n)"
    unfolding sq int_padlen md by simp
  finally show ?thesis by (simp only: q_def a_def)
qed

lemma length_rtattr_bytes:
  "length (rtattr_bytes (t, v, pad)) = 4 + length v + length pad"
  by (simp add: rtattr_bytes_def le16_def)

lemma rtattrs_bytes_Cons: "rtattrs_bytes (r # rs) = rtattr_bytes r @ rtattrs_bytes rs"
  by (simp add: rtattrs_bytes_def)

lemma wf_rtattrs_Cons:
  "wf_rtattrs ((t, v, pad) # rs) \<Longrightarrow>
   length v \<le> 65531 \<and> length pad \<le> padlen (length v) \<and> wf_rtattrs rs
   \<and> (rs \<noteq> [] \<longrightarrow> length pad = padlen (length v))"
  by (cases rs) auto

lemma attrs_of_Cons: "attrs_of ((t, v, pad) # rs) attrs = attrs_of rs (attrs(t \<mapsto> v))"
  by (simp add: attrs_of_def)

lemma TakeAttrs_loop_stream:
  assumes "wf_rtattrs rs"
    and "int (length (pre @ rtattrs_bytes rs)) + 3 < 2 ^ 63"
    and "rs \<noteq> [] \<Longrightarrow> sint (align p 4) = int (length pre)"
    and "rs = [] \<Longrightarrow> int (length pre) \<le> sint (align p 4)"
  shows "\<exists>p'. TakeAttrs_loop \<lparr>data = pre @ rtattrs_bytes rs, pos = p\<rparr> attrs
    = Return (\<lparr>data = pre @ rtattrs_bytes rs, pos = p'\<rparr>, attrs_of rs attrs, None)"
  using assms
proof (induction rs arbitrary: pre p attrs)
  case Nil
  then show ?case
    by (simp add: rtattrs_bytes_def attrs_of_def TakeAttrs_loop_end)
next
  case (Cons r rs)
  obtain t v pad where r: "r = (t, v, pad)" by (cases r) auto
  let ?d = "pre @ rtattr_bytes (t, v, pad) @ rtattrs_bytes rs"
  let ?p1 = "align p 4 + word_of_nat (4 + length v)"
  have wf: "length v \<le> 65531" "length pad \<le> padlen (length v)" "wf_rtattrs rs"
    "rs \<noteq> [] \<Longrightarrow> length pad = padlen (length v)"
    using wf_rtattrs_Cons [of t v pad rs] Cons.prems(1) r by simp_all
  have a: "sint (align p 4) = int (length pre)"
    using Cons.prems(3) by simp
  have bound: "int (length ?d) + 3 < 2 ^ 63"
    using Cons.prems(2) by (simp add: r rtattrs_bytes_Cons)
  have step: "TakeAttrs_loop \<lparr>data = ?d, pos = p\<rparr> attrs
      = TakeAttrs_loop \<lparr>data = ?d, pos = ?p1\<rparr> (attrs(t \<mapsto> v))"
    using a wf(1) bound by (rule TakeAttrs_loop_step)
  have al: "sint (align ?p1 4) = int (length pre) + 4 + int (length v) + int (padlen (length v))"
  proof (rule sint_align_after_attr [OF a])
    show "int (length pre) + 4 + int (length v) + 3 < 2 ^ 63"
      using bound by (simp add: length_rtattr_bytes)
  qed
  have "\<exists>p'. TakeAttrs_loop \<lparr>data = (pre @ rtattr_bytes (t, v, pad)) @ rtattrs_bytes rs, pos = ?p1\<rparr>
        (attrs(t \<mapsto> v))
      = Return (\<lparr>data = (pre @ rtattr_bytes (t, v, pad)) @ rtattrs_bytes rs, pos = p'\<rparr>,
          attrs_of rs (attrs(t \<mapsto> v)), None)"
  proof (rule Cons.IH)
    show "wf_rtattrs rs" by (fact wf(3))
    show "int (length ((pre @ rtattr_bytes (t, v, pad)) @ rtattrs_bytes rs)) + 3 < 2 ^ 63"
      using bound by simp
    show "sint (align ?p1 4) = int (length (pre @ rtattr_bytes (t, v, pad)))" if "rs \<noteq> []"
      using al wf(4) [OF that] by (simp add: length_rtattr_bytes)
    show "int (length (pre @ rtattr_bytes (t, v, pad))) \<le> sint (align ?p1 4)" if "rs = []"
      using al wf(2) by (simp add: length_rtattr_bytes)
  qed
  then show ?case
    by (simp add: r rtattrs_bytes_Cons attrs_of_Cons step)
qed

lemma attrs_of_append: "attrs_of (xs @ ys) attrs = attrs_of ys (attrs_of xs attrs)"
  by (simp add: attrs_of_def)

lemma attrs_of_other:
  "\<forall>r \<in> set rs. fst r \<noteq> t \<Longrightarrow> attrs_of rs attrs t = attrs t"
  by (induction rs arbitrary: attrs) (auto simp add: attrs_of_def)

lemma attrs_of_last:
  assumes "\<forall>r \<in> set zs. fst r \<noteq> t"
  shows "attrs_of (xs @ (t, v1, p1) # ys @ (t, v2, p2) # zs) attrs t = Some v2"
proof -
  have "attrs_of (xs @ (t, v1, p1) # ys @ (t, v2, p2) # zs) attrs
      = attrs_of zs ((attrs_of (xs @ (t, v1, p1) # ys) attrs)(t \<mapsto> v2))"
    using attrs_of_append [of "xs @ (t, v1, p1) # ys" "(t, v2, p2) # zs" attrs]
    by (simp add: attrs_of_Cons)
  then show ?thesis
    using attrs_of_other [OF assms] by simp
qed

text \<open>
  Claim C9. Take a buffer that holds, from an aligned offset on (after a header, say), a
  stream of well-formed attributes, two of which have the same type \<open>t\<close>, and none
  after the second has it. Then \<open>TakeAttrs\<close> from that offset returns without error a
  map that binds \<open>t\<close> to the value of the second, later one. The buffer is shorter
  than \<open>2^62\<close> bytes, as every Go slice is.
\<close>

theorem TakeAttrs_last_write_wins:
  assumes wf: "wf_rtattrs rs"
    and hdr: "length hdr mod 4 = 0"
    and bound: "length (hdr @ rtattrs_bytes rs) < 2 ^ 62"
    and dup: "rs = xs @ (t, v1, p1) # ys @ (t, v2, p2) # zs"
    and last: "\<forall>r \<in> set zs. fst r \<noteq> t"
  shows "\<exists>nlmsg' attrs.
    TakeAttrs \<lparr>data = hdr @ rtattrs_bytes rs, pos = word_of_nat (length hdr)\<rparr>
      = Return (nlmsg', attrs, None)
    \<and> attrs t = Some v2"
proof -
  let ?p = "word_of_nat (length hdr) :: go_int"
  have b: "int (length (hdr @ rtattrs_bytes rs)) < 2 ^ 62"
    using bound by (simp only: of_nat_less_iff [of _ "2 ^ 62", where ?'a = int, symmetric] of_nat_power of_nat_numeral)
  then have b3: "int (length (hdr @ rtattrs_bytes rs)) + 3 < 2 ^ 63"
    by simp
  have "length hdr < 2 ^ 63"
    using bound by simp
  then have sp: "sint ?p = int (length hdr)"
    by (rule sint_of_nat64)
  have "int (length hdr) mod 4 = 0"
    using hdr by presburger
  then have al: "sint (align ?p 4) = int (length hdr)"
    using sint_align4_aligned [of ?p] sp b3 by simp
  obtain p' where "TakeAttrs_loop \<lparr>data = hdr @ rtattrs_bytes rs, pos = ?p\<rparr> Map.empty
      = Return (\<lparr>data = hdr @ rtattrs_bytes rs, pos = p'\<rparr>, attrs_of rs Map.empty, None)"
    using TakeAttrs_loop_stream [OF wf b3, of ?p Map.empty] al by auto
  moreover have "attrs_of rs Map.empty t = Some v2"
    unfolding dup using last by (rule attrs_of_last)
  ultimately show ?thesis
    by (simp add: TakeAttrs_def)
qed

text \<open>
  A header and three attributes of types 1, 2 and 1, the last one without padding: type 1
  is bound to the value of the third attribute.
\<close>

theorem TakeAttrs_last_write_wins_witness:
  "rtattrs_bytes [(1, [0xAA], [0, 0, 0]), (2, [1, 2], [0, 0]), (1, [0xBB, 0xCC], [])]
     = [5, 0, 1, 0, 0xAA, 0, 0, 0, 6, 0, 2, 0, 1, 2, 0, 0, 6, 0, 1, 0, 0xBB, 0xCC]
   \<and> (\<exists>nlmsg' attrs.
        TakeAttrs \<lparr>data = [38, 0, 0, 0, 16, 0, 0, 0, 5, 0, 0, 0, 9, 0, 0, 0,
            5, 0, 1, 0, 0xAA, 0, 0, 0, 6, 0, 2, 0, 1, 2, 0, 0, 6, 0, 1, 0, 0xBB, 0xCC],
          pos = 16\<rparr>
          = Return (nlmsg', attrs, None)
        \<and> attrs 1 = Some [0xBB, 0xCC])"
proof -
  let ?rs = "[(1, [0xAA], [0, 0, 0]), (2, [1, 2], [0, 0]), (1, [0xBB, 0xCC], [])]
    :: (16 word \<times> byte list \<times> byte list) list"
  let ?hdr = "[38, 0, 0, 0, 16, 0, 0, 0, 5, 0, 0, 0, 9, 0, 0, 0] :: byte list"
  have bytes: "rtattrs_bytes ?rs
      = [5, 0, 1, 0, 0xAA, 0, 0, 0, 6, 0, 2, 0, 1, 2, 0, 0, 6, 0, 1, 0, 0xBB, 0xCC]"
    by (simp add: rtattrs_bytes_def rtattr_bytes_def le16_def)
  have wf: "wf_rtattrs ?rs"
    by (simp add: padlen_def)
  have hdr: "length ?hdr mod 4 = 0"
    by simp
  have bound: "length (?hdr @ rtattrs_bytes ?rs) < 2 ^ 62"
    by (simp add: bytes)
  have dup: "?rs = [] @ (1, [0xAA], [0, 0, 0]) # [(2, [1, 2], [0, 0])] @ (1, [0xBB, 0xCC], []) # []"
    by simp
  have last: "\<forall>r \<in> set ([] :: (16 word \<times> byte list \<times> byte list) list). fst r \<noteq> 1"
    by simp
  show ?thesis
    using TakeAttrs_last_write_wins [OF wf hdr bound dup last] by (simp add: bytes)
qed

end
